theory Spec2Isabelle
  imports Main
begin

section \<open>Markdown token trees\<close>

text \<open>
  The converter consumes the token tree of the external markdown lexer. The walkers
  \<open>extractPlainText\<close> and \<open>applyInlineFormatting\<close> read four fields of a node: its
  \<open>type\<close>, its \<open>text\<close>, its child sequence \<open>tokens\<close> and, for links, \<open>href\<close>.
  Both walkers treat an absent \<open>text\<close> like the empty string and an absent \<open>tokens\<close>
  like the empty array (\<open>!tokens\<close>, \<open>token.text || ''\<close>,
  \<open>token.tokens && token.tokens.length > 0\<close>), so absent fields are modelled by
  the empty string and the empty list. A string is the list of its characters and
  \<open>.length\<close> is \<open>length\<close>; the texts considered are ASCII, where a character is one
  code unit of the JavaScript string.
\<close>

datatype token = Token (ttype: string) (ttext: string) (ttokens: "token list") (thref: string)

text \<open>
  Top-level tokens are dispatched on \<open>token.type\<close> by \<open>processToken\<close>; each
  constructor carries the fields its handler reads: heading (\<open>depth\<close>, \<open>tokens\<close>),
  paragraph (\<open>tokens\<close>), list (\<open>ordered\<close>, the \<open>tokens\<close> of each item), code
  (\<open>text\<close>), table (the \<open>tokens\<close> of each header cell, and of each cell of each
  row), space, and any other type.
\<close>

datatype block_token =
    Heading nat "token list"
  | Paragraph "token list"
  | ListBlock bool "token list list"
  | Code string
  | Table "token list list" "token list list list"
  | Space
  | Unsupported string

section \<open>Edit operations\<close>

text \<open>
  The \<open>textStyle\<close> payload of an \<open>updateTextStyle\<close> request. The background colour
  is the grey \<open>rgbColor\<close> triple, kept in hundredths (0.95 is 95).
\<close>

record text_style =
  bold :: "bool option"
  italic :: "bool option"
  link :: "string option"
  weightedFontFamily :: "string option"
  fontSize :: "(nat \<times> string) option"
  backgroundColor :: "(nat \<times> nat \<times> nat) option"

definition no_style :: text_style where
  "no_style = \<lparr>bold = None, italic = None, link = None, weightedFontFamily = None,
     fontSize = None, backgroundColor = None\<rparr>"

text \<open>
  Requests of the batch: \<open>insertText\<close> (location index, text),
  \<open>updateParagraphStyle\<close> (range, namedStyleType, fields),
  \<open>createParagraphBullets\<close> (range, bulletPreset),
  \<open>updateTextStyle\<close> (range, textStyle, fields),
  \<open>deleteContentRange\<close> (range) and \<open>insertTable\<close> (location index, rows, columns).
\<close>

datatype request =
    InsertText int string
  | UpdateParagraphStyle int int string string
  | CreateParagraphBullets int int string
  | UpdateTextStyle int int text_style string
  | DeleteContentRange int int
  | InsertTable int nat nat

section \<open>The plain-text flattener\<close>

fun extractPlainText :: "token list \<Rightarrow> string" where
  "extractPlainText [] = []"
| "extractPlainText (Token ty tx ts hr # rest) =
     (if ty = ''strong'' \<or> ty = ''em'' \<or> ty = ''link'' then extractPlainText ts
      else if ts \<noteq> [] then extractPlainText ts
      else if ty = ''text'' \<or> ty = ''codespan'' then tx
      else if ty = ''space'' then '' ''
      else tx)
     @ extractPlainText rest"

section \<open>Inline formatting\<close>

definition codespan_style :: text_style where
  "codespan_style = no_style\<lparr>weightedFontFamily := Some ''Courier New'',
     backgroundColor := Some (95, 95, 95)\<rparr>"

text \<open>The length \<open>applyInlineFormatting\<close> assigns to one child token.\<close>

definition token_length :: "token \<Rightarrow> int" where
  "token_length t =
     (if ttype t = ''strong'' \<or> ttype t = ''em'' \<or> ttype t = ''link''
        then int (length (extractPlainText (ttokens t)))
      else if ttype t = ''text'' \<or> ttype t = ''codespan''
        then int (length (ttext t))
      else 0)"

text \<open>The style request pushed for one child token, if any.\<close>

definition style_request :: "token \<Rightarrow> int \<Rightarrow> int \<Rightarrow> request list" where
  "style_request t tokenStart tokenEnd =
     (if ttype t = ''strong''
        then [UpdateTextStyle tokenStart tokenEnd (no_style\<lparr>bold := Some True\<rparr>) ''bold'']
      else if ttype t = ''em''
        then [UpdateTextStyle tokenStart tokenEnd (no_style\<lparr>italic := Some True\<rparr>) ''italic'']
      else if ttype t = ''link''
        then [UpdateTextStyle tokenStart tokenEnd (no_style\<lparr>link := Some (thref t)\<rparr>) ''link'']
      else if ttype t = ''codespan''
        then [UpdateTextStyle tokenStart tokenEnd codespan_style
                ''weightedFontFamily,backgroundColor'']
      else [])"

text \<open>
  The loop of \<open>applyInlineFormatting\<close>: \<open>inline_loop tokens startOffset currentOffset rs\<close>
  runs the loop over the remaining \<open>tokens\<close> with the running \<open>currentOffset\<close> on the
  request array \<open>rs\<close> and returns the array with the pushed requests appended.
\<close>

fun inline_loop :: "token list \<Rightarrow> int \<Rightarrow> int \<Rightarrow> request list \<Rightarrow> request list" where
  "inline_loop [] startOffset currentOffset rs = rs"
| "inline_loop (Token ty tx ts hr # rest) startOffset currentOffset rs =
     (let t = Token ty tx ts hr;
          len = token_length t;
          tokenStart = startOffset + currentOffset;
          tokenEnd = tokenStart + len;
          rs1 = rs @ style_request t tokenStart tokenEnd;
          rs2 = (if ts \<noteq> [] then inline_loop ts tokenStart 0 rs1 else rs1)
      in inline_loop rest startOffset (currentOffset + len) rs2)"

definition applyInlineFormatting :: "token list \<Rightarrow> int \<Rightarrow> request list \<Rightarrow> request list" where
  "applyInlineFormatting tokens startOffset rs = inline_loop tokens startOffset 0 rs"

section \<open>The operation compiler\<close>

record cell_data =
  cd_row :: nat
  cd_col :: nat
  cd_text :: string
  cd_bold :: bool

record table_insert =
  placeholderIndex :: int
  placeholderLength :: int
  rows :: nat
  cols :: nat

record table_spec = table_insert +
  cellData :: "cell_data list"

record converter =
  requests :: "request list"
  tableInsertRequests :: "table_insert list"
  tables :: "table_spec list"
  currentIndex :: int

text \<open>Reading a cell of a row that has no such column throws a TypeError.\<close>

datatype error = TypeError

definition digit_char :: "nat \<Rightarrow> char" where
  "digit_char d = ''0123456789'' ! d"

fun string_of_nat :: "nat \<Rightarrow> string" where
  "string_of_nat n =
     (if n < 10 then [digit_char n] else string_of_nat (n div 10) @ [digit_char (n mod 10)])"

declare string_of_nat.simps [simp del]

definition addHeading :: "nat \<Rightarrow> token list \<Rightarrow> converter \<Rightarrow> converter" where
  "addHeading depth tokens st =
     (let text = extractPlainText tokens @ ''\<newline>'';
          startIndex = currentIndex st;
          rs1 = requests st @ [InsertText (currentIndex st) text];
          cur = currentIndex st + int (length text);
          rs2 = rs1 @ [UpdateParagraphStyle startIndex (cur - 1)
                         (''HEADING_'' @ string_of_nat depth) ''namedStyleType'']
      in st\<lparr>requests := applyInlineFormatting tokens startIndex rs2, currentIndex := cur\<rparr>)"

definition addParagraph :: "token list \<Rightarrow> converter \<Rightarrow> converter" where
  "addParagraph tokens st =
     (let text = extractPlainText tokens @ ''\<newline>'';
          startIndex = currentIndex st;
          rs1 = requests st @ [InsertText (currentIndex st) text];
          cur = currentIndex st + int (length text)
      in st\<lparr>requests := applyInlineFormatting tokens startIndex rs1, currentIndex := cur\<rparr>)"

fun addList :: "bool \<Rightarrow> token list list \<Rightarrow> converter \<Rightarrow> converter" where
  "addList isOrdered [] st = st"
| "addList isOrdered (item # items) st =
     (let text = extractPlainText item @ ''\<newline>'';
          startIndex = currentIndex st;
          rs1 = requests st @ [InsertText (currentIndex st) text];
          cur = currentIndex st + int (length text);
          rs2 = rs1 @ [CreateParagraphBullets startIndex (cur - 1)
                         (if isOrdered then ''NUMBERED_DECIMAL_ALPHA_ROMAN''
                          else ''BULLET_DISC_CIRCLE_SQUARE'')]
      in addList isOrdered items
           (st\<lparr>requests := applyInlineFormatting item startIndex rs2, currentIndex := cur\<rparr>))"

definition codeblock_style :: text_style where
  "codeblock_style = no_style\<lparr>weightedFontFamily := Some ''Courier New'',
     fontSize := Some (10, ''PT''), backgroundColor := Some (95, 95, 95)\<rparr>"

definition addCodeBlock :: "string \<Rightarrow> converter \<Rightarrow> converter" where
  "addCodeBlock code st =
     (let text = code @ ''\<newline>\<newline>'';
          startIndex = currentIndex st;
          rs1 = requests st @ [InsertText (currentIndex st) text];
          cur = currentIndex st + int (length text)
      in st\<lparr>requests := rs1 @ [UpdateTextStyle startIndex (cur - 2) codeblock_style
                                 ''weightedFontFamily,fontSize,backgroundColor''],
            currentIndex := cur\<rparr>)"

text \<open>
  The cells of one data row, columns \<open>0 .. cols - 1\<close>; \<open>token.rows[row][col].tokens\<close>
  throws when the row is shorter than the header.
\<close>

definition row_cells :: "nat \<Rightarrow> nat \<Rightarrow> token list list \<Rightarrow> error + cell_data list" where
  "row_cells ncols r cells =
     (if length cells < ncols then Inl TypeError
      else Inr (map (\<lambda>c. \<lparr>cd_row = r + 1, cd_col = c,
                          cd_text = extractPlainText (cells ! c), cd_bold = False\<rparr>) [0..<ncols]))"

fun data_cells :: "nat \<Rightarrow> nat \<Rightarrow> token list list list \<Rightarrow> error + cell_data list" where
  "data_cells ncols r [] = Inr []"
| "data_cells ncols r (cells # later) =
     (case row_cells ncols r cells of
        Inl e \<Rightarrow> Inl e
      | Inr cs \<Rightarrow> (case data_cells ncols (r + 1) later of
                    Inl e \<Rightarrow> Inl e
                  | Inr ds \<Rightarrow> Inr (cs @ ds)))"

definition addTable :: "token list list \<Rightarrow> token list list list \<Rightarrow> converter \<Rightarrow> error + converter" where
  "addTable header trows st =
     (let nrows = length trows + 1;
          ncols = length header;
          tableStartIndex = currentIndex st;
          placeholder = ''[TABLE:'' @ string_of_nat nrows @ ''x'' @ string_of_nat ncols
                          @ '']\<newline>'';
          rs1 = requests st @ [InsertText tableStartIndex placeholder];
          cur = currentIndex st + int (length placeholder);
          headerCells = map (\<lambda>c. \<lparr>cd_row = 0, cd_col = c,
                                   cd_text = extractPlainText (header ! c), cd_bold = True\<rparr>)
                          [0..<ncols]
      in case data_cells ncols 0 trows of
           Inl e \<Rightarrow> Inl e
         | Inr dataCells \<Rightarrow>
             Inr (st\<lparr>requests := rs1,
                     tableInsertRequests := tableInsertRequests st @
                       [\<lparr>placeholderIndex = tableStartIndex,
                         placeholderLength = int (length placeholder),
                         rows = nrows, cols = ncols\<rparr>],
                     tables := tables st @
                       [\<lparr>placeholderIndex = tableStartIndex,
                         placeholderLength = int (length placeholder),
                         rows = nrows, cols = ncols,
                         cellData = headerCells @ dataCells\<rparr>],
                     currentIndex := cur\<rparr>))"

fun processToken :: "block_token \<Rightarrow> converter \<Rightarrow> error + converter" where
  "processToken (Heading depth tokens) st = Inr (addHeading depth tokens st)"
| "processToken (Paragraph tokens) st = Inr (addParagraph tokens st)"
| "processToken (ListBlock isOrdered items) st = Inr (addList isOrdered items st)"
| "processToken (Code code) st = Inr (addCodeBlock code st)"
| "processToken (Table header trows) st = addTable header trows st"
| "processToken Space st = Inr st"
| "processToken (Unsupported ty) st = Inr st"

fun process_all :: "block_token list \<Rightarrow> converter \<Rightarrow> error + converter" where
  "process_all [] st = Inr st"
| "process_all (t # ts) st =
     (case processToken t st of Inl e \<Rightarrow> Inl e | Inr st' \<Rightarrow> process_all ts st')"

definition initial_converter :: converter where
  "initial_converter = \<lparr>requests = [], tableInsertRequests = [], tables = [], currentIndex = 1\<rparr>"

text \<open>
  \<open>convert\<close> resets the state, lexes the markdown and processes the tokens in order.
  The lexer is the external \<open>marked.lexer\<close>; it is a parameter.
\<close>

definition convert :: "(string \<Rightarrow> block_token list) \<Rightarrow> string \<Rightarrow> error + converter" where
  "convert lexer markdown = process_all (lexer markdown) initial_converter"

section \<open>The batch rebaser\<close>

text \<open>
  Modelled from the spec: the Batch Rebaser. Its code belongs to the command-line front
  end, which is not among the source files modelled here. The spec says: for every
  operation in the script, add \<open>offset\<close> to every index-bearing field relevant to its
  variant (InsertText: location index; SetTextStyle, SetParagraphStyle, SetBullets:
  range start and end; DeleteRange: range start and end); InsertTable operations are
  not touched.
\<close>

fun rebase_request :: "int \<Rightarrow> request \<Rightarrow> request" where
  "rebase_request k (InsertText i txt) = InsertText (i + k) txt"
| "rebase_request k (UpdateParagraphStyle s e nst fl) = UpdateParagraphStyle (s + k) (e + k) nst fl"
| "rebase_request k (CreateParagraphBullets s e preset) = CreateParagraphBullets (s + k) (e + k) preset"
| "rebase_request k (UpdateTextStyle s e sty fl) = UpdateTextStyle (s + k) (e + k) sty fl"
| "rebase_request k (DeleteContentRange s e) = DeleteContentRange (s + k) (e + k)"
| "rebase_request k (InsertTable i r c) = InsertTable i r c"

text \<open>Modelled from the spec: rebasing a script rebases every operation of it.\<close>

definition rebase :: "int \<Rightarrow> request list \<Rightarrow> request list" where
  "rebase k script = map (rebase_request k) script"

section \<open>Documents\<close>

text \<open>
  A document is its \<open>body.content\<close>, the list of structural elements. An element that
  is a paragraph carries the paragraph; any other element (table, section break) has
  none. A paragraph has an optional style (with optional \<open>namedStyleType\<close> and
  \<open>headingId\<close>) and an optional list of elements, each with the \<open>content\<close> of its
  text run when it has one.
\<close>

record paragraph_style =
  namedStyleType :: "string option"
  ps_headingId :: "string option"

record paragraph_body =
  paragraphStyle :: "paragraph_style option"
  elements :: "string option list option"

record structural_element =
  startIndex :: int
  endIndex :: int
  el_paragraph :: "paragraph_body option"

subsection \<open>JavaScript numbers and strings\<close>

text \<open>
  A heading level is the number \<open>parseInt\<close> returns: an integer, or NaN (\<open>None\<close>).
  Every comparison with NaN is false.
\<close>

definition js_gt :: "int option \<Rightarrow> int option \<Rightarrow> bool" where
  "js_gt a b = (case a of None \<Rightarrow> False | Some x \<Rightarrow> (case b of None \<Rightarrow> False | Some y \<Rightarrow> x > y))"

definition js_ge :: "int option \<Rightarrow> int option \<Rightarrow> bool" where
  "js_ge a b = (case a of None \<Rightarrow> False | Some x \<Rightarrow> (case b of None \<Rightarrow> False | Some y \<Rightarrow> x \<ge> y))"

definition js_le :: "int option \<Rightarrow> int option \<Rightarrow> bool" where
  "js_le a b = (case a of None \<Rightarrow> False | Some x \<Rightarrow> (case b of None \<Rightarrow> False | Some y \<Rightarrow> x \<le> y))"

text \<open>
  \<open>toLowerCase\<close> on ASCII text: the letters A to Z are mapped to a to z and every
  other character is kept.
\<close>

definition lower_char :: "char \<Rightarrow> char" where
  "lower_char c =
     (case map_of (zip ''ABCDEFGHIJKLMNOPQRSTUVWXYZ'' ''abcdefghijklmnopqrstuvwxyz'') c of
        None \<Rightarrow> c | Some d \<Rightarrow> d)"

definition toLowerCase :: "string \<Rightarrow> string" where
  "toLowerCase s = map lower_char s"

text \<open>
  \<open>parseInt\<close> with no radix: leading white space is skipped, a sign is read, a
  \<open>0x\<close> prefix selects radix 16, and the longest prefix of digits is the value; with no
  digit the result is NaN.
\<close>

definition digit_val :: "char \<Rightarrow> nat option" where
  "digit_val c = map_of (zip ''0123456789abcdef'' [0..<16]) (lower_char c)"

definition is_digit :: "nat \<Rightarrow> char \<Rightarrow> bool" where
  "is_digit radix c = (case digit_val c of None \<Rightarrow> False | Some d \<Rightarrow> d < radix)"

definition digits_value :: "nat \<Rightarrow> string \<Rightarrow> nat" where
  "digits_value radix ds = foldl (\<lambda>acc c. acc * radix + the (digit_val c)) 0 ds"

definition is_space :: "char \<Rightarrow> bool" where
  "is_space c = (c \<in> set [CHR '' '', CHR 0x09, CHR 0x0A, CHR 0x0B, CHR 0x0C, CHR 0x0D])"

definition parseInt :: "string \<Rightarrow> int option" where
  "parseInt s =
     (let s1 = dropWhile is_space s;
          negative = (take 1 s1 = ''-'');
          s2 = (if take 1 s1 = ''-'' \<or> take 1 s1 = ''+'' then drop 1 s1 else s1);
          hex = (take 2 s2 = ''0x'' \<or> take 2 s2 = ''0X'');
          radix = (if hex then 16 else 10);
          s3 = (if hex then drop 2 s2 else s2);
          ds = takeWhile (is_digit radix) s3
      in if ds = [] then None
         else Some (if negative then - int (digits_value radix ds) else int (digits_value radix ds)))"

text \<open>\<open>s.replace(/\n$/, '')\<close>: one newline at the very end is removed.\<close>

definition strip_trailing_newline :: "string \<Rightarrow> string" where
  "strip_trailing_newline s = (if s \<noteq> [] \<and> last s = CHR 0x0A then butlast s else s)"

definition extractTextFromParagraph :: "paragraph_body \<Rightarrow> string" where
  "extractTextFromParagraph p =
     (case elements p of
        None \<Rightarrow> []
      | Some els \<Rightarrow>
          strip_trailing_newline
            (concat (map (\<lambda>el. case el of None \<Rightarrow> [] | Some c \<Rightarrow> c) els)))"

section \<open>The section parser\<close>

record heading =
  h_level :: "int option"
  h_text :: string
  h_headingId :: "string option"
  h_startIndex :: int
  h_endIndex :: int

record doc_section =
  level :: "int option"
  title :: string
  headingId :: "string option"
  headingStartIndex :: int
  headingEndIndex :: int
  contentStartIndex :: int
  contentEndIndex :: int
  sectionStartIndex :: int
  sectionEndIndex :: int

definition startsWith :: "string \<Rightarrow> string \<Rightarrow> bool" where
  "startsWith s pre = (take (length pre) s = pre)"

text \<open>The first loop of \<open>parseDocumentSections\<close>: the headings, in document order.\<close>

fun collect_headings :: "structural_element list \<Rightarrow> heading list" where
  "collect_headings [] = []"
| "collect_headings (element # more_content) =
     (case el_paragraph element of
        None \<Rightarrow> collect_headings more_content
      | Some p \<Rightarrow>
          (case paragraphStyle p of
             None \<Rightarrow> collect_headings more_content
           | Some style \<Rightarrow>
               (case namedStyleType style of
                  None \<Rightarrow> collect_headings more_content
                | Some nst \<Rightarrow>
                    if nst \<noteq> [] \<and> startsWith nst ''HEADING_''
                    then \<lparr>h_level = parseInt (drop (length ''HEADING_'') nst),
                          h_text = extractTextFromParagraph p,
                          h_headingId = ps_headingId style,
                          h_startIndex = startIndex element,
                          h_endIndex = endIndex element\<rparr> # collect_headings more_content
                    else collect_headings more_content)))"

text \<open>
  The inner \<open>while\<close> loop: from \<open>endHeadingIdx\<close>, skip the headings whose level is
  greater than the level \<open>lvl\<close> of the current heading.
\<close>

function find_end :: "heading list \<Rightarrow> int option \<Rightarrow> nat \<Rightarrow> nat" where
  "find_end headings lvl endHeadingIdx =
     (if endHeadingIdx < length headings \<and> js_gt (h_level (headings ! endHeadingIdx)) lvl
      then find_end headings lvl (endHeadingIdx + 1)
      else endHeadingIdx)"
  by pat_completeness auto
termination
  by (relation "measure (\<lambda>(headings, lvl, idx). length headings - idx)") auto

declare find_end.simps [simp del]

text \<open>
  The boundary of heading \<open>i\<close>. It is only computed for \<open>i < length headings\<close>, where
  the content has a last element.
\<close>

definition section_end :: "structural_element list \<Rightarrow> heading list \<Rightarrow> nat \<Rightarrow> int" where
  "section_end content headings i =
     (if i + 1 < length headings then
        (let endHeadingIdx = find_end headings (h_level (headings ! i)) (i + 1)
         in if endHeadingIdx < length headings
            then h_startIndex (headings ! endHeadingIdx)
            else endIndex (last content))
      else endIndex (last content))"

definition make_section :: "structural_element list \<Rightarrow> heading list \<Rightarrow> nat \<Rightarrow> doc_section" where
  "make_section content headings i =
     (let h = headings ! i; sectionEnd = section_end content headings i
      in \<lparr>level = h_level h, title = h_text h, headingId = h_headingId h,
          headingStartIndex = h_startIndex h, headingEndIndex = h_endIndex h,
          contentStartIndex = h_endIndex h, contentEndIndex = sectionEnd,
          sectionStartIndex = h_startIndex h, sectionEndIndex = sectionEnd\<rparr>)"

definition parseDocumentSections :: "structural_element list \<Rightarrow> doc_section list" where
  "parseDocumentSections content =
     (let headings = collect_headings content
      in map (make_section content headings) [0..<length headings])"

definition extractSectionContent :: "structural_element list \<Rightarrow> doc_section \<Rightarrow> structural_element list" where
  "extractSectionContent content sec =
     filter (\<lambda>element. startIndex element \<ge> contentStartIndex sec \<and>
                        startIndex element < contentEndIndex sec) content"

subsection \<open>Delete requests\<close>

definition createDeleteSectionContentRequest :: "doc_section \<Rightarrow> request option" where
  "createDeleteSectionContentRequest sec =
     (if contentStartIndex sec \<ge> contentEndIndex sec then None
      else Some (DeleteContentRange (contentStartIndex sec) (contentEndIndex sec - 1)))"

definition createDeleteSectionRequest :: "doc_section \<Rightarrow> request" where
  "createDeleteSectionRequest sec =
     DeleteContentRange (sectionStartIndex sec) (sectionEndIndex sec - 1)"

subsection \<open>The outline\<close>

text \<open>
  \<open>buildOutline\<close> creates one node object per section and keeps references to the
  same objects in \<open>outline\<close>, in \<open>stack\<close> and in the \<open>children\<close> arrays, which it
  mutates through the stack. The model keeps the objects in a store, a list indexed by
  the order of creation, and holds references as indices into it. The stack is a list
  with its top first.
\<close>

record outline_node =
  node_section :: doc_section
  children :: "nat list"

record outline_state =
  store :: "outline_node list"
  outline :: "nat list"
  stack :: "nat list"

fun pop_stack :: "outline_node list \<Rightarrow> int option \<Rightarrow> nat list \<Rightarrow> nat list" where
  "pop_stack nodes lvl [] = []"
| "pop_stack nodes lvl (entry # below) =
     (if js_ge (level (node_section (nodes ! entry))) lvl then pop_stack nodes lvl below
      else entry # below)"

definition add_child :: "nat \<Rightarrow> outline_node \<Rightarrow> outline_node" where
  "add_child c n = n\<lparr>children := children n @ [c]\<rparr>"

definition outline_step :: "doc_section \<Rightarrow> outline_state \<Rightarrow> outline_state" where
  "outline_step sec st =
     (let stack1 = pop_stack (store st) (level sec) (stack st);
          node = length (store st);
          store1 = store st @ [\<lparr>node_section = sec, children = []\<rparr>]
      in case stack1 of
           [] \<Rightarrow> \<lparr>store = store1, outline = outline st @ [node], stack = [node]\<rparr>
         | parent # below \<Rightarrow>
             \<lparr>store = store1[parent := add_child node (store1 ! parent)],
              outline = outline st, stack = node # parent # below\<rparr>)"

fun outline_loop :: "doc_section list \<Rightarrow> outline_state \<Rightarrow> outline_state" where
  "outline_loop [] st = st"
| "outline_loop (sec # secs) st = outline_loop secs (outline_step sec st)"

definition buildOutline :: "doc_section list \<Rightarrow> outline_state" where
  "buildOutline sections = outline_loop sections \<lparr>store = [], outline = [], stack = []\<rparr>"

text \<open>
  The stack pass in the words of the spec: every stack entry whose level is \<open>>=\<close> the
  level of the current section is popped, then the section is attached as a top-level
  result or as a child of the new stack top, and pushed.
\<close>

definition spec_outline_step :: "doc_section \<Rightarrow> outline_state \<Rightarrow> outline_state" where
  "spec_outline_step sec st =
     (let kept = filter (\<lambda>e. \<not> js_ge (level (node_section (store st ! e))) (level sec)) (stack st);
          node = length (store st);
          store1 = store st @ [\<lparr>node_section = sec, children = []\<rparr>]
      in if kept = []
         then \<lparr>store = store1, outline = outline st @ [node], stack = [node]\<rparr>
         else \<lparr>store = store1[hd kept := add_child node (store1 ! hd kept)],
               outline = outline st, stack = node # kept\<rparr>)"

fun spec_outline_loop :: "doc_section list \<Rightarrow> outline_state \<Rightarrow> outline_state" where
  "spec_outline_loop [] st = st"
| "spec_outline_loop (sec # secs) st = spec_outline_loop secs (spec_outline_step sec st)"

definition spec_buildOutline :: "doc_section list \<Rightarrow> outline_state" where
  "spec_buildOutline sections = spec_outline_loop sections \<lparr>store = [], outline = [], stack = []\<rparr>"

section \<open>The search engine\<close>

record match =
  m_startIndex :: int
  m_endIndex :: int
  m_text :: string
  m_context :: string
  paragraphIndex :: int

text \<open>\<open>s.substring(a, b)\<close>: the arguments are clamped to the string and ordered.\<close>

definition substring :: "string \<Rightarrow> nat \<Rightarrow> nat \<Rightarrow> string" where
  "substring s a b = take (max a b - min a b) (drop (min a b) s)"

text \<open>
  \<open>s.indexOf(q, from)\<close>: the first position at or after \<open>from\<close> (clamped to the length
  of \<open>s\<close>) where \<open>q\<close> occurs, \<open>None\<close> for \<open>-1\<close>. \<open>index_of_aux q rest k\<close> scans the
  suffix \<open>rest\<close> of \<open>s\<close> that starts at position \<open>k\<close>.
\<close>

fun index_of_aux :: "string \<Rightarrow> string \<Rightarrow> nat \<Rightarrow> nat option" where
  "index_of_aux q [] k = (if q = [] then Some k else None)"
| "index_of_aux q (c # cs) k =
     (if take (length q) (c # cs) = q then Some k else index_of_aux q cs (k + 1))"

definition indexOf :: "string \<Rightarrow> string \<Rightarrow> nat \<Rightarrow> nat option" where
  "indexOf s q from = index_of_aux q (drop from s) (min from (length s))"

definition make_match :: "int \<Rightarrow> string \<Rightarrow> string \<Rightarrow> nat \<Rightarrow> match" where
  "make_match elementStart txt query index =
     (let matchStart = elementStart + int index;
          matchEnd = matchStart + int (length query);
          contextStart = max 0 (int index - 20);
          contextEnd = min (int (length txt)) (int index + int (length query) + 20)
      in \<lparr>m_startIndex = matchStart, m_endIndex = matchEnd,
          m_text = substring txt index (index + length query),
          m_context = substring txt (nat contextStart) (nat contextEnd),
          paragraphIndex = elementStart\<rparr>)"

text \<open>
  The \<open>while\<close> loop over one paragraph. It need not end, so the result is an option:
  \<open>None\<close> when the loop runs forever.
\<close>

partial_function (option) search_loop ::
  "int \<Rightarrow> string \<Rightarrow> string \<Rightarrow> nat \<Rightarrow> match list \<Rightarrow> match list option" where
  "search_loop elementStart txt query index matches =
     (case indexOf (toLowerCase txt) (toLowerCase query) index of
        None \<Rightarrow> Some matches
      | Some i \<Rightarrow>
          search_loop elementStart txt query (i + length query)
            (matches @ [make_match elementStart txt query i]))"

declare search_loop.simps [code]

text \<open>
  The loop over the content; \<open>searchEndIndex\<close> is \<open>None\<close> for \<open>Infinity\<close>.
\<close>

fun search_elements ::
  "structural_element list \<Rightarrow> string \<Rightarrow> int \<Rightarrow> int option \<Rightarrow> match list \<Rightarrow> match list option" where
  "search_elements [] query searchStartIndex searchEndIndex matches = Some matches"
| "search_elements (element # more_content) query searchStartIndex searchEndIndex matches =
     (case el_paragraph element of
        None \<Rightarrow> search_elements more_content query searchStartIndex searchEndIndex matches
      | Some p \<Rightarrow>
          if startIndex element < searchStartIndex \<or>
             (case searchEndIndex of None \<Rightarrow> False | Some e \<Rightarrow> startIndex element \<ge> e)
          then search_elements more_content query searchStartIndex searchEndIndex matches
          else (case search_loop (startIndex element) (extractTextFromParagraph p) query 0 matches of
                  None \<Rightarrow> None
                | Some matches' \<Rightarrow>
                    search_elements more_content query searchStartIndex searchEndIndex matches'))"

definition searchInDocument ::
  "structural_element list \<Rightarrow> string \<Rightarrow> doc_section option \<Rightarrow> match list option" where
  "searchInDocument content query sec =
     search_elements content query
       (case sec of None \<Rightarrow> 0 | Some s \<Rightarrow> sectionStartIndex s)
       (case sec of None \<Rightarrow> None | Some s \<Rightarrow> Some (sectionEndIndex s))
       []"

section \<open>Example inputs\<close>

text \<open>
  The token tree of the lexer for the markdown \<open># Title\n\nHello **world**\<close>: a
  heading of depth 1 and a paragraph whose second child is a bold span.
\<close>

definition title_hello_markdown :: string where
  "title_hello_markdown = ''# Title\<newline>\<newline>Hello **world**''"

definition title_hello_tokens :: "block_token list" where
  "title_hello_tokens =
     [Heading 1 [Token ''text'' ''Title'' [] ''''],
      Paragraph [Token ''text'' ''Hello '' [] '''',
                 Token ''strong'' ''world'' [Token ''text'' ''world'' [] ''''] '''']]"

text \<open>The inline token tree of \<open>**bold *and* nested**\<close>.\<close>

definition bold_nested_tokens :: "token list" where
  "bold_nested_tokens =
     [Token ''strong'' ''bold *and* nested''
        [Token ''text'' ''bold '' [] '''',
         Token ''em'' ''and'' [Token ''text'' ''and'' [] ''''] '''',
         Token ''text'' '' nested'' [] '''']
        '''']"

text \<open>
  The token tree of the lexer for the list \<open>- **a**\n  # `b`\<close>: one item whose
  tokens are a text token with the literal text \<open>**a**\<close> and a bold child, followed
  by a heading token with an inline-code child.
\<close>

definition nested_item_markdown :: string where
  "nested_item_markdown = ''- **a**\<newline>  # `b`''"

definition nested_item_tokens :: "token list" where
  "nested_item_tokens =
     [Token ''text'' ''**a**'' [Token ''strong'' ''a'' [Token ''text'' ''a'' [] ''''] ''''] '''',
      Token ''heading'' ''`b`'' [Token ''codespan'' ''b'' [] ''''] '''']"

text \<open>
  The inline tokens of the paragraph \<open>\*a **b**\<close>: an escape token with text \<open>*\<close>,
  a text token and a bold span.
\<close>

definition escape_tokens :: "token list" where
  "escape_tokens =
     [Token ''escape'' ''*'' [] '''',
      Token ''text'' ''a '' [] '''',
      Token ''strong'' ''b'' [Token ''text'' ''b'' [] ''''] '''']"

text \<open>A paragraph element with one text run.\<close>

definition para :: "int \<Rightarrow> int \<Rightarrow> string \<Rightarrow> string \<Rightarrow> structural_element" where
  "para s e sty txt =
     \<lparr>startIndex = s, endIndex = e,
      el_paragraph = Some \<lparr>paragraphStyle = Some \<lparr>namedStyleType = Some sty, ps_headingId = None\<rparr>,
                           elements = Some [Some txt]\<rparr>\<rparr>"

text \<open>
  A document with headings at levels 1, 2, 2, 1: a section break, heading A, a body
  paragraph, headings B and C, a body paragraph, heading D.
\<close>

definition doc_1221 :: "structural_element list" where
  "doc_1221 =
     [\<lparr>startIndex = 0, endIndex = 1, el_paragraph = None\<rparr>,
      para 1 3 ''HEADING_1'' ''A\<newline>'',
      para 3 6 ''NORMAL_TEXT'' ''xx\<newline>'',
      para 6 8 ''HEADING_2'' ''B\<newline>'',
      para 8 10 ''HEADING_2'' ''C\<newline>'',
      para 10 13 ''NORMAL_TEXT'' ''yy\<newline>'',
      para 13 15 ''HEADING_1'' ''D\<newline>'']"

section \<open>Notions used in the properties\<close>

text \<open>
  The index fields of a request, and the total length of the text a script inserts.
\<close>

fun request_indices :: "request \<Rightarrow> int list" where
  "request_indices (InsertText i txt) = [i]"
| "request_indices (UpdateParagraphStyle s e nst fl) = [s, e]"
| "request_indices (CreateParagraphBullets s e preset) = [s, e]"
| "request_indices (UpdateTextStyle s e sty fl) = [s, e]"
| "request_indices (DeleteContentRange s e) = [s, e]"
| "request_indices (InsertTable i r c) = [i]"

fun inserted_length :: "request list \<Rightarrow> int" where
  "inserted_length [] = 0"
| "inserted_length (InsertText i txt # rs) = int (length txt) + inserted_length rs"
| "inserted_length (r # rs) = inserted_length rs"

text \<open>
  The invariant of the stack pass after the sections \<open>seen\<close> have been processed: node
  \<open>i\<close> of the store holds section \<open>i\<close>, every stack entry is a node of the store, and
  the levels on the stack strictly decrease from the top down.
\<close>

definition stack_pass_inv :: "doc_section list \<Rightarrow> outline_state \<Rightarrow> bool" where
  "stack_pass_inv seen st \<longleftrightarrow>
     map node_section (store st) = seen
     \<and> list_all (\<lambda>e. e < length seen) (stack st)
     \<and> sorted_wrt (\<lambda>a b. js_gt (level (seen ! a)) (level (seen ! b))) (stack st)"

text \<open>
  A document as the service returns it: every element is non-empty and starts where the
  previous one ends.
\<close>

fun contiguous :: "structural_element list \<Rightarrow> bool" where
  "contiguous [] = True"
| "contiguous [e] = (startIndex e < endIndex e)"
| "contiguous (e # f # rest) =
     (startIndex e < endIndex e \<and> endIndex e = startIndex f \<and> contiguous (f # rest))"

text \<open>Two sections overlap when their ranges share an index.\<close>

definition sections_overlap :: "doc_section \<Rightarrow> doc_section \<Rightarrow> bool" where
  "sections_overlap a b \<longleftrightarrow>
     sectionStartIndex a < sectionEndIndex b \<and> sectionStartIndex b < sectionEndIndex a"

text \<open>
  The position of boundary \<open>k\<close>: the start of heading \<open>k\<close>, or the end of the document
  when \<open>k\<close> is past the last heading.
\<close>

definition boundary_pos :: "structural_element list \<Rightarrow> heading list \<Rightarrow> nat \<Rightarrow> int" where
  "boundary_pos content hs k =
     (if k < length hs then h_startIndex (hs ! k) else endIndex (last content))"

section \<open>The plain-text flattener: properties\<close>

lemma extractPlainText_append:
  "extractPlainText (xs @ ys) = extractPlainText xs @ extractPlainText ys"
proof (induction xs)
  case Nil
  show ?case by simp
next
  case (Cons t xs)
  then show ?case by (cases t) simp
qed

lemma extractPlainText_single:
  "extractPlainText [t] =
     (if ttokens t \<noteq> [] then extractPlainText (ttokens t)
      else if ttype t = ''strong'' \<or> ttype t = ''em'' \<or> ttype t = ''link'' then []
      else if ttype t = ''space'' then '' ''
      else ttext t)"
  by (cases t) simp

text \<open>
  C8. The flattener recurses into the children of a node first and uses that result; the
  literal text of a node is used only when it has no children, and a space node gives
  one space. Flattening keeps the order of the nodes, and the token tree of
  \<open>**bold *and* nested**\<close> flattens to \<open>bold and nested\<close>, with no asterisk.
\<close>

theorem extractPlainText_children_first:
  "extractPlainText [t] =
     (if ttokens t \<noteq> [] then extractPlainText (ttokens t)
      else if ttype t = ''strong'' \<or> ttype t = ''em'' \<or> ttype t = ''link'' then []
      else if ttype t = ''space'' then '' ''
      else ttext t)
   \<and> extractPlainText (xs @ ys) = extractPlainText xs @ extractPlainText ys
   \<and> extractPlainText bold_nested_tokens = ''bold and nested''
   \<and> CHR ''*'' \<notin> set (extractPlainText bold_nested_tokens)"
proof -
  have ex: "extractPlainText bold_nested_tokens = ''bold and nested''"
    by (simp add: bold_nested_tokens_def)
  have "CHR ''*'' \<notin> set ''bold and nested''" by simp
  with ex show ?thesis
    using extractPlainText_single [of t] extractPlainText_append [of xs ys] by simp
qed

theorem extractPlainText_children_first_witness:
  "extractPlainText [Token ''text'' ''**a** b''
      [Token ''strong'' ''a'' [Token ''text'' ''a'' [] ''''] '''', Token ''text'' '' b'' [] ''''] '''']
     = ''a b''
   \<and> extractPlainText [Token ''space'' '''' [] ''''] = '' ''
   \<and> extractPlainText bold_nested_tokens = ''bold and nested''"
  using extractPlainText_children_first
    [of "Token ''text'' ''**a** b''
          [Token ''strong'' ''a'' [Token ''text'' ''a'' [] ''''] '''', Token ''text'' '' b'' [] ''''] ''''"
        "[]" "[]"]
    extractPlainText_children_first [of "Token ''space'' '''' [] ''''" "[]" "[]"]
  by simp

section \<open>The operation compiler: properties\<close>

text \<open>
  C1. When the lexer returns the token tree of \<open># Title\n\nHello **world**\<close>,
  \<open>convert\<close> emits, in order: InsertText of \<open>Title\n\<close> at 1, updateParagraphStyle
  over 1 to 6 with HEADING_1, InsertText of \<open>Hello world\n\<close> at 7, and updateTextStyle
  over 13 to 18 with bold set; no table request is emitted and the cursor ends at 19.
\<close>

theorem convert_title_hello:
  assumes "lexer title_hello_markdown = title_hello_tokens"
  shows "convert lexer title_hello_markdown =
     Inr \<lparr>requests =
            [InsertText 1 ''Title\<newline>'',
             UpdateParagraphStyle 1 6 ''HEADING_1'' ''namedStyleType'',
             InsertText 7 ''Hello world\<newline>'',
             UpdateTextStyle 13 18 (no_style\<lparr>bold := Some True\<rparr>) ''bold''],
          tableInsertRequests = [], tables = [], currentIndex = 19\<rparr>"
  using assms
  by (simp add: convert_def title_hello_tokens_def initial_converter_def addHeading_def
        addParagraph_def applyInlineFormatting_def token_length_def style_request_def
        Let_def digit_char_def string_of_nat.simps)

theorem convert_title_hello_witness:
  "convert (\<lambda>md. title_hello_tokens) title_hello_markdown =
     Inr \<lparr>requests =
            [InsertText 1 ''Title\<newline>'',
             UpdateParagraphStyle 1 6 ''HEADING_1'' ''namedStyleType'',
             InsertText 7 ''Hello world\<newline>'',
             UpdateTextStyle 13 18 (no_style\<lparr>bold := Some True\<rparr>) ''bold''],
          tableInsertRequests = [], tables = [], currentIndex = 19\<rparr>"
  using convert_title_hello [of "\<lambda>md. title_hello_tokens"] by simp

subsection \<open>The cursor counts the inserted text\<close>

lemma inserted_length_append:
  "inserted_length (xs @ ys) = inserted_length xs + inserted_length ys"
  by (induction xs rule: inserted_length.induct) simp_all

lemma inserted_length_style_request [simp]:
  "inserted_length (style_request t a b) = 0"
  by (simp add: style_request_def)

lemma inserted_length_inline_loop:
  "inserted_length (inline_loop ts startOffset currentOffset rs) = inserted_length rs"
proof (induction ts startOffset currentOffset rs rule: inline_loop.induct)
  case (1 startOffset currentOffset rs)
  show ?case by simp
next
  case (2 ty tx ts hr rest startOffset currentOffset rs)
  then show ?case by (simp add: Let_def inserted_length_append)
qed

lemma cursor_addHeading:
  "currentIndex (addHeading d ts st) - inserted_length (requests (addHeading d ts st))
     = currentIndex st - inserted_length (requests st)"
  by (simp add: addHeading_def Let_def applyInlineFormatting_def inserted_length_inline_loop
        inserted_length_append)

lemma cursor_addParagraph:
  "currentIndex (addParagraph ts st) - inserted_length (requests (addParagraph ts st))
     = currentIndex st - inserted_length (requests st)"
  by (simp add: addParagraph_def Let_def applyInlineFormatting_def inserted_length_inline_loop
        inserted_length_append)

lemma cursor_addList:
  "currentIndex (addList ord items st) - inserted_length (requests (addList ord items st))
     = currentIndex st - inserted_length (requests st)"
proof (induction items arbitrary: st)
  case Nil
  show ?case by simp
next
  case (Cons item items)
  show ?case
    by (simp add: Cons.IH Let_def applyInlineFormatting_def inserted_length_inline_loop
          inserted_length_append)
qed

lemma cursor_addCodeBlock:
  "currentIndex (addCodeBlock code st) - inserted_length (requests (addCodeBlock code st))
     = currentIndex st - inserted_length (requests st)"
  by (simp add: addCodeBlock_def Let_def inserted_length_append)

lemma cursor_addTable:
  assumes "addTable header trows st = Inr st'"
  shows "currentIndex st' - inserted_length (requests st')
     = currentIndex st - inserted_length (requests st)"
  using assms
  by (auto simp: addTable_def Let_def inserted_length_append split: sum.splits)

lemma cursor_processToken:
  assumes "processToken t st = Inr st'"
  shows "currentIndex st' - inserted_length (requests st')
     = currentIndex st - inserted_length (requests st)"
proof (cases t)
  case (Table header trows)
  with assms show ?thesis by (simp add: cursor_addTable)
qed (use assms in \<open>auto simp: cursor_addHeading cursor_addParagraph cursor_addList cursor_addCodeBlock\<close>)

lemma cursor_process_all:
  assumes "process_all ts st = Inr st'"
  shows "currentIndex st' - inserted_length (requests st')
     = currentIndex st - inserted_length (requests st)"
  using assms
proof (induction ts arbitrary: st)
  case Nil
  then show ?case by simp
next
  case (Cons t ts)
  then obtain st1 where st1: "processToken t st = Inr st1" and rest: "process_all ts st1 = Inr st'"
    by (auto split: sum.splits)
  from Cons.IH [OF rest] cursor_processToken [OF st1] show ?case by simp
qed

text \<open>
  The first half of C2 holds for every token tree: when \<open>convert\<close> returns, the cursor
  is 1 plus the total length of the text inserted by the script, table placeholders
  included.
\<close>

lemma convert_cursor_total:
  assumes "convert lexer markdown = Inr st"
  shows "currentIndex st = 1 + inserted_length (requests st)"
  using cursor_process_all [of "lexer markdown" initial_converter st] assms
  by (simp add: convert_def initial_converter_def)

subsection \<open>Inline offsets and the literal text of a token\<close>

text \<open>
  C3. The running offset of \<open>applyInlineFormatting\<close> does not always advance by the
  rendered length of a child. On the item tokens of \<open>- **a**\n  # `b`\<close> the text token
  flattens to \<open>a\<close> (length 1) but advances the offset by the length 5 of its literal
  text \<open>**a**\<close>, so the inline-code style of \<open>b\<close> is emitted over 6 to 7 although the
  inserted text is \<open>ab\<close> and \<open>b\<close> sits at 2 to 3. On the tokens of \<open>\*a **b**\<close> the
  escape token contributes \<open>*\<close> to the inserted text but advances the offset by 0, so
  the bold style of \<open>b\<close> is emitted over 3 to 4 although \<open>b\<close> sits at 4 to 5.
\<close>

theorem inline_offset_not_rendered_length:
  "extractPlainText nested_item_tokens = ''ab''
   \<and> extractPlainText [hd nested_item_tokens] = ''a''
   \<and> token_length (hd nested_item_tokens) = 5
   \<and> applyInlineFormatting nested_item_tokens 1 [] =
       [UpdateTextStyle 1 2 (no_style\<lparr>bold := Some True\<rparr>) ''bold'',
        UpdateTextStyle 6 7 codespan_style ''weightedFontFamily,backgroundColor'']
   \<and> extractPlainText escape_tokens = ''*a b''
   \<and> extractPlainText [hd escape_tokens] = ''*''
   \<and> token_length (hd escape_tokens) = 0
   \<and> applyInlineFormatting escape_tokens 1 [] =
       [UpdateTextStyle 3 4 (no_style\<lparr>bold := Some True\<rparr>) ''bold'']"
  by (simp add: nested_item_tokens_def escape_tokens_def applyInlineFormatting_def
        token_length_def style_request_def Let_def)

subsection \<open>A style range beyond the cursor\<close>

text \<open>
  C2. On the list \<open>- **a**\n  # `b`\<close> the script inserts \<open>ab\n\<close> at index 1 and the
  cursor ends at 4, which is 1 plus the inserted length 3; but the script carries an
  updateTextStyle over 6 to 7, beyond the final cursor.
\<close>

theorem convert_range_beyond_cursor:
  "convert (\<lambda>md. [ListBlock False [nested_item_tokens]]) nested_item_markdown =
     Inr \<lparr>requests =
            [InsertText 1 ''ab\<newline>'',
             CreateParagraphBullets 1 3 ''BULLET_DISC_CIRCLE_SQUARE'',
             UpdateTextStyle 1 2 (no_style\<lparr>bold := Some True\<rparr>) ''bold'',
             UpdateTextStyle 6 7 codespan_style ''weightedFontFamily,backgroundColor''],
          tableInsertRequests = [], tables = [], currentIndex = 4\<rparr>
   \<and> (\<exists>i \<in> set (request_indices
            (UpdateTextStyle 6 7 codespan_style ''weightedFontFamily,backgroundColor'')).
         i > 4)"
  by (simp add: convert_def nested_item_tokens_def initial_converter_def
        applyInlineFormatting_def token_length_def style_request_def Let_def)

section \<open>The batch rebaser: properties\<close>

lemma rebase_request_inverse: "rebase_request (- k) (rebase_request k r) = r"
  by (cases r) simp_all

text \<open>
  C9. Rebasing a script by \<open>k\<close> and then by \<open>- k\<close> gives the script back: every
  location index and every range start and end has its original value.
\<close>

theorem rebase_inverse: "rebase (- k) (rebase k script) = script"
  by (induction script) (simp_all add: rebase_def rebase_request_inverse)

theorem rebase_inverse_witness:
  "rebase (- 41) (rebase 41 [InsertText 1 ''Hi\<newline>'', UpdateTextStyle 1 3 no_style ''bold'',
      DeleteContentRange 2 3, InsertTable 1 2 2])
   = [InsertText 1 ''Hi\<newline>'', UpdateTextStyle 1 3 no_style ''bold'',
      DeleteContentRange 2 3, InsertTable 1 2 2]"
  using rebase_inverse [of 41 "[InsertText 1 ''Hi\<newline>'', UpdateTextStyle 1 3 no_style ''bold'',
      DeleteContentRange 2 3, InsertTable 1 2 2]"] by simp

section \<open>The section parser: properties\<close>

subsection \<open>The boundary search\<close>

lemma find_end_first:
  assumes "start \<le> j" and "j < length hs" and "\<not> js_gt (h_level (hs ! j)) lvl"
    and "\<forall>k. start \<le> k \<and> k < j \<longrightarrow> js_gt (h_level (hs ! k)) lvl"
  shows "find_end hs lvl start = j"
  using assms
proof (induction hs lvl start rule: find_end.induct)
  case (1 hs lvl idx)
  show ?case
  proof (cases "idx = j")
    case True
    with "1.prems" show ?thesis by (simp add: find_end.simps)
  next
    case False
    with "1.prems" have lt: "idx < j" by simp
    with "1.prems" have deeper: "js_gt (h_level (hs ! idx)) lvl" and inside: "idx < length hs"
      by simp_all
    have "find_end hs lvl (idx + 1) = j"
      using "1.IH" "1.prems" lt deeper inside by simp
    with deeper inside show ?thesis by (simp add: find_end.simps)
  qed
qed

lemma find_end_none:
  assumes "start \<le> length hs"
    and "\<forall>k. start \<le> k \<and> k < length hs \<longrightarrow> js_gt (h_level (hs ! k)) lvl"
  shows "find_end hs lvl start = length hs"
  using assms
proof (induction hs lvl start rule: find_end.induct)
  case (1 hs lvl idx)
  show ?case
  proof (cases "idx < length hs")
    case True
    with "1.prems" have deeper: "js_gt (h_level (hs ! idx)) lvl" by simp
    have "find_end hs lvl (idx + 1) = length hs"
      using "1.IH" "1.prems" True deeper by simp
    with deeper True show ?thesis by (simp add: find_end.simps)
  next
    case False
    with "1.prems" show ?thesis by (simp add: find_end.simps)
  qed
qed

lemma js_le_not_gt: "js_le a b \<Longrightarrow> \<not> js_gt a b"
  by (auto simp: js_le_def js_gt_def split: option.splits)

lemma section_end_first:
  assumes "i < j" and "j < length hs" and "js_le (h_level (hs ! j)) (h_level (hs ! i))"
    and "\<forall>k. i < k \<and> k < j \<longrightarrow> js_gt (h_level (hs ! k)) (h_level (hs ! i))"
  shows "section_end content hs i = h_startIndex (hs ! j)"
proof -
  have "find_end hs (h_level (hs ! i)) (i + 1) = j"
    using assms by (intro find_end_first) (auto dest: js_le_not_gt)
  with assms show ?thesis by (simp add: section_end_def)
qed

lemma section_end_none:
  assumes "i < length hs"
    and "\<forall>k. i < k \<and> k < length hs \<longrightarrow> js_gt (h_level (hs ! k)) (h_level (hs ! i))"
  shows "section_end content hs i = endIndex (last content)"
proof -
  have "find_end hs (h_level (hs ! i)) (i + 1) = length hs"
    using assms by (intro find_end_none) auto
  then show ?thesis by (simp add: section_end_def)
qed

lemma length_parseDocumentSections:
  "length (parseDocumentSections content) = length (collect_headings content)"
  by (simp add: parseDocumentSections_def Let_def)

lemma nth_parseDocumentSections:
  assumes "i < length (collect_headings content)"
  shows "parseDocumentSections content ! i = make_section content (collect_headings content) i"
  using assms by (simp add: parseDocumentSections_def Let_def)

text \<open>
  C4. For heading \<open>i\<close> of the parsed heading sequence, the section ends at the start
  index of the first later heading \<open>j\<close> whose level is at most that of \<open>i\<close> (every
  heading between them being deeper), and at the end index of the last structural
  element when every later heading is deeper. The section range starts at the start of
  heading \<open>i\<close>, the content range at its end, and both stop at that boundary.
\<close>

theorem section_boundary:
  assumes "i < length (collect_headings content)"
  shows "length (parseDocumentSections content) = length (collect_headings content)
    \<and> sectionStartIndex (parseDocumentSections content ! i)
        = h_startIndex (collect_headings content ! i)
    \<and> contentStartIndex (parseDocumentSections content ! i)
        = h_endIndex (collect_headings content ! i)
    \<and> contentEndIndex (parseDocumentSections content ! i)
        = sectionEndIndex (parseDocumentSections content ! i)
    \<and> (i < j \<and> j < length (collect_headings content)
        \<and> js_le (h_level (collect_headings content ! j)) (h_level (collect_headings content ! i))
        \<and> (\<forall>k. i < k \<and> k < j \<longrightarrow>
              js_gt (h_level (collect_headings content ! k)) (h_level (collect_headings content ! i)))
        \<longrightarrow> sectionEndIndex (parseDocumentSections content ! i)
              = h_startIndex (collect_headings content ! j))
    \<and> ((\<forall>k. i < k \<and> k < length (collect_headings content) \<longrightarrow>
              js_gt (h_level (collect_headings content ! k)) (h_level (collect_headings content ! i)))
        \<longrightarrow> sectionEndIndex (parseDocumentSections content ! i) = endIndex (last content))"
proof -
  let ?hs = "collect_headings content"
  have sec: "parseDocumentSections content ! i = make_section content ?hs i"
    using assms by (rule nth_parseDocumentSections)
  have "sectionEndIndex (make_section content ?hs i) = h_startIndex (?hs ! j)"
    if "i < j" "j < length ?hs" "js_le (h_level (?hs ! j)) (h_level (?hs ! i))"
      "\<forall>k. i < k \<and> k < j \<longrightarrow> js_gt (h_level (?hs ! k)) (h_level (?hs ! i))"
    using section_end_first [OF that] by (simp add: make_section_def Let_def)
  moreover have "sectionEndIndex (make_section content ?hs i) = endIndex (last content)"
    if "\<forall>k. i < k \<and> k < length ?hs \<longrightarrow> js_gt (h_level (?hs ! k)) (h_level (?hs ! i))"
    using section_end_none [OF assms that] by (simp add: make_section_def Let_def)
  ultimately show ?thesis
    by (simp add: sec length_parseDocumentSections) (simp add: make_section_def Let_def)
qed

lemma headings_doc_1221:
  "collect_headings doc_1221 =
     [\<lparr>h_level = Some 1, h_text = ''A'', h_headingId = None, h_startIndex = 1, h_endIndex = 3\<rparr>,
      \<lparr>h_level = Some 2, h_text = ''B'', h_headingId = None, h_startIndex = 6, h_endIndex = 8\<rparr>,
      \<lparr>h_level = Some 2, h_text = ''C'', h_headingId = None, h_startIndex = 8, h_endIndex = 10\<rparr>,
      \<lparr>h_level = Some 1, h_text = ''D'', h_headingId = None, h_startIndex = 13, h_endIndex = 15\<rparr>]"
  by code_simp

theorem section_boundary_witness:
  "sectionEndIndex (parseDocumentSections doc_1221 ! 0) = 13
   \<and> h_startIndex (collect_headings doc_1221 ! 3) = 13
   \<and> sectionStartIndex (parseDocumentSections doc_1221 ! 0) = 1
   \<and> contentStartIndex (parseDocumentSections doc_1221 ! 0) = 3
   \<and> contentEndIndex (parseDocumentSections doc_1221 ! 0) = 13"
proof -
  have between: "\<forall>k. (0::nat) < k \<and> k < 3 \<longrightarrow>
      js_gt (h_level (collect_headings doc_1221 ! k)) (h_level (collect_headings doc_1221 ! 0))"
  proof (intro allI impI)
    fix k :: nat
    assume "0 < k \<and> k < 3"
    then have "k = 1 \<or> k = 2" by arith
    then show "js_gt (h_level (collect_headings doc_1221 ! k)) (h_level (collect_headings doc_1221 ! 0))"
      by (auto simp: headings_doc_1221 js_gt_def)
  qed
  have le: "js_le (h_level (collect_headings doc_1221 ! 3)) (h_level (collect_headings doc_1221 ! 0))"
    by (simp add: headings_doc_1221 js_le_def)
  have len: "(0::nat) < length (collect_headings doc_1221)"
    by (simp add: headings_doc_1221)
  from section_boundary [OF len, of 3] between le show ?thesis
    by (simp add: headings_doc_1221)
qed

subsection \<open>The outline\<close>

lemma js_not_ge_numeric:
  assumes "a \<noteq> None" and "b \<noteq> None"
  shows "\<not> js_ge a b \<longleftrightarrow> js_gt b a"
  using assms by (auto simp: js_ge_def js_gt_def)

lemma js_gt_trans: "js_gt a b \<Longrightarrow> js_gt b c \<Longrightarrow> js_gt a c"
  by (auto simp: js_gt_def split: option.splits)

text \<open>
  On a stack whose levels decrease from the top down, popping from the top while the
  level is \<open>>=\<close> removes every entry whose level is \<open>>=\<close>.
\<close>

lemma pop_stack_filter:
  assumes "sorted_wrt (\<lambda>a b. js_gt (level (node_section (nodes ! a))) (level (node_section (nodes ! b)))) stk"
    and "list_all (\<lambda>e. level (node_section (nodes ! e)) \<noteq> None) stk"
    and "lvl \<noteq> None"
  shows "pop_stack nodes lvl stk
     = filter (\<lambda>e. \<not> js_ge (level (node_section (nodes ! e))) lvl) stk"
  using assms
proof (induction stk)
  case Nil
  show ?case by simp
next
  case (Cons e below)
  show ?case
  proof (cases "js_ge (level (node_section (nodes ! e))) lvl")
    case True
    with Cons show ?thesis by simp
  next
    case False
    have keep: "\<not> js_ge (level (node_section (nodes ! b))) lvl" if "b \<in> set below" for b
    proof -
      from Cons.prems(1) that
      have "js_gt (level (node_section (nodes ! e))) (level (node_section (nodes ! b)))" by simp
      moreover from False Cons.prems(2,3)
      have "js_gt lvl (level (node_section (nodes ! e)))"
        by (simp add: js_not_ge_numeric)
      ultimately have "js_gt lvl (level (node_section (nodes ! b)))"
        by (blast intro: js_gt_trans)
      then show ?thesis by (auto simp: js_gt_def js_ge_def split: option.splits)
    qed
    then have "filter (\<lambda>b. \<not> js_ge (level (node_section (nodes ! b))) lvl) below = below"
      by (simp add: filter_id_conv)
    with False show ?thesis by simp
  qed
qed

lemma pop_stack_filter_inv:
  assumes inv: "stack_pass_inv seen st" and num: "\<forall>s \<in> set seen. level s \<noteq> None"
    and lvl: "lvl \<noteq> None"
  shows "pop_stack (store st) lvl (stack st)
     = filter (\<lambda>e. \<not> js_ge (level (node_section (store st ! e))) lvl) (stack st)"
proof -
  from inv have seen_eq: "map node_section (store st) = seen"
    and bound: "list_all (\<lambda>e. e < length seen) (stack st)"
    and sorted: "sorted_wrt (\<lambda>a b. js_gt (level (seen ! a)) (level (seen ! b))) (stack st)"
    by (simp_all add: stack_pass_inv_def)
  have nth: "node_section (store st ! e) = seen ! e" if "e < length seen" for e
    using that seen_eq by (metis length_map nth_map)
  have in_stack: "e < length seen" if "e \<in> set (stack st)" for e
    using bound that by (simp add: list_all_iff)
  have s: "sorted_wrt (\<lambda>a b. js_gt (level (node_section (store st ! a)))
                                 (level (node_section (store st ! b)))) (stack st)"
    using sorted by (rule sorted_wrt_mono_rel [rotated]) (simp add: nth in_stack)
  have n: "list_all (\<lambda>e. level (node_section (store st ! e)) \<noteq> None) (stack st)"
    using num by (auto simp: list_all_iff nth in_stack)
  from s n lvl show ?thesis by (rule pop_stack_filter)
qed

lemma outline_step_spec:
  assumes "stack_pass_inv seen st" and "\<forall>s \<in> set seen. level s \<noteq> None"
    and "level sec \<noteq> None"
  shows "outline_step sec st = spec_outline_step sec st"
  using pop_stack_filter_inv [OF assms]
  by (simp add: outline_step_def spec_outline_step_def Let_def split: list.splits)

lemma map_node_section_add_child:
  "map node_section (xs[i := add_child c (xs ! i)]) = map node_section xs"
  by (cases "i < length xs") (auto intro!: nth_equalityI simp: nth_list_update add_child_def)

lemma spec_outline_step_inv:
  assumes inv: "stack_pass_inv seen st" and num: "\<forall>s \<in> set seen. level s \<noteq> None"
    and lvl: "level sec \<noteq> None"
  shows "stack_pass_inv (seen @ [sec]) (spec_outline_step sec st)"
proof -
  let ?kept = "filter (\<lambda>e. \<not> js_ge (level (node_section (store st ! e))) (level sec)) (stack st)"
  from inv have seen_eq: "map node_section (store st) = seen"
    and bound: "list_all (\<lambda>e. e < length seen) (stack st)"
    and sorted: "sorted_wrt (\<lambda>a b. js_gt (level (seen ! a)) (level (seen ! b))) (stack st)"
    by (simp_all add: stack_pass_inv_def)
  have len: "length (store st) = length seen"
    using seen_eq by (metis length_map)
  have nth: "node_section (store st ! e) = seen ! e" if "e < length seen" for e
    using that seen_eq by (metis length_map nth_map)
  have in_stack: "e < length seen" if "e \<in> set (stack st)" for e
    using bound that by (simp add: list_all_iff)
  have kept_bound: "list_all (\<lambda>e. e < length (seen @ [sec])) ?kept"
    by (auto simp: list_all_iff dest!: in_stack)
  have kept_sorted: "sorted_wrt (\<lambda>a b. js_gt (level ((seen @ [sec]) ! a)) (level ((seen @ [sec]) ! b))) ?kept"
  proof -
    have "sorted_wrt (\<lambda>a b. js_gt (level (seen ! a)) (level (seen ! b))) ?kept"
      using sorted by (rule sorted_wrt_filter)
    then show ?thesis
      by (rule sorted_wrt_mono_rel [rotated]) (auto simp: nth_append dest: in_stack)
  qed
  have kept_below: "js_gt (level sec) (level ((seen @ [sec]) ! e))" if "e \<in> set ?kept" for e
  proof -
    from that have e: "e \<in> set (stack st)"
      and ng: "\<not> js_ge (level (node_section (store st ! e))) (level sec)" by simp_all
    from e have lt: "e < length seen" by (rule in_stack)
    with num have "level (seen ! e) \<noteq> None" by simp
    with ng lvl lt show ?thesis
      by (simp add: nth nth_append js_not_ge_numeric)
  qed
  have sections: "map node_section (store (spec_outline_step sec st)) = seen @ [sec]"
    by (simp add: spec_outline_step_def Let_def seen_eq map_node_section_add_child)
  have stack_eq: "stack (spec_outline_step sec st) = length seen # ?kept"
    by (simp add: spec_outline_step_def Let_def len)
  show ?thesis
    unfolding stack_pass_inv_def stack_eq
    using sections kept_bound kept_sorted kept_below
    by (simp add: nth_append)
qed

lemma outline_loop_spec:
  assumes "stack_pass_inv seen st" and "\<forall>s \<in> set (seen @ secs). level s \<noteq> None"
  shows "outline_loop secs st = spec_outline_loop secs st"
  using assms
proof (induction secs arbitrary: seen st)
  case Nil
  show ?case by simp
next
  case (Cons sec secs)
  from Cons.prems have num: "\<forall>s \<in> set seen. level s \<noteq> None" and lvl: "level sec \<noteq> None"
    by simp_all
  have step: "outline_step sec st = spec_outline_step sec st"
    using Cons.prems(1) num lvl by (rule outline_step_spec)
  have inv: "stack_pass_inv (seen @ [sec]) (spec_outline_step sec st)"
    using Cons.prems(1) num lvl by (rule spec_outline_step_inv)
  have "outline_loop secs (spec_outline_step sec st) = spec_outline_loop secs (spec_outline_step sec st)"
    using inv Cons.prems(2) by (intro Cons.IH) auto
  with step show ?case by simp
qed

lemma buildOutline_spec:
  assumes "\<forall>s \<in> set secs. level s \<noteq> None"
  shows "buildOutline secs = spec_buildOutline secs"
proof -
  have "stack_pass_inv [] \<lparr>store = [], outline = [], stack = []\<rparr>"
    by (simp add: stack_pass_inv_def)
  then show ?thesis
    unfolding buildOutline_def spec_buildOutline_def
    using assms by (intro outline_loop_spec) auto
qed
lemma map_eq_four:
  assumes "map f xs = [a, b, c, d]"
  obtains x0 x1 x2 x3 where "xs = [x0, x1, x2, x3]" "f x0 = a" "f x1 = b" "f x2 = c" "f x3 = d"
  using assms by (auto simp: map_eq_Cons_conv)

lemma outline_1221:
  assumes "map level secs = [Some 1, Some 2, Some 2, Some 1]"
  shows "outline (buildOutline secs) = [0, 3]
    \<and> map children (store (buildOutline secs)) = [[1, 2], [], [], []]
    \<and> map node_section (store (buildOutline secs)) = secs"
proof -
  from assms obtain s0 s1 s2 s3 where secs: "secs = [s0, s1, s2, s3]"
    and lv: "level s0 = Some 1" "level s1 = Some 2" "level s2 = Some 2" "level s3 = Some 1"
    by (rule map_eq_four)
  show ?thesis
    by (simp add: secs lv buildOutline_def outline_step_def js_ge_def add_child_def Let_def)
qed

lemma sections_1221:
  assumes "map h_level (collect_headings content) = [Some 1, Some 2, Some 2, Some 1]"
  shows "map level (parseDocumentSections content) = [Some 1, Some 2, Some 2, Some 1]
    \<and> contentEndIndex (parseDocumentSections content ! 0)
        = h_startIndex (collect_headings content ! 3)"
proof -
  from assms obtain h0 h1 h2 h3 where hs: "collect_headings content = [h0, h1, h2, h3]"
    and lv: "h_level h0 = Some 1" "h_level h1 = Some 2" "h_level h2 = Some 2" "h_level h3 = Some 1"
    by (rule map_eq_four)
  have upt4: "[0..<4] = [0, 1, 2, Suc 2]"
    by (simp add: upt_rec)
  have levels: "map level (parseDocumentSections content) = [Some 1, Some 2, Some 2, Some 1]"
    by (simp add: parseDocumentSections_def hs lv upt4 make_section_def Let_def)
  have between: "\<forall>k. (0::nat) < k \<and> k < 3 \<longrightarrow>
      js_gt (h_level ([h0, h1, h2, h3] ! k)) (h_level ([h0, h1, h2, h3] ! 0))"
  proof (intro allI impI)
    fix k :: nat
    assume "0 < k \<and> k < 3"
    then have "k = 1 \<or> k = 2" by arith
    then show "js_gt (h_level ([h0, h1, h2, h3] ! k)) (h_level ([h0, h1, h2, h3] ! 0))"
      by (auto simp: lv js_gt_def)
  qed
  have "section_end content [h0, h1, h2, h3] 0 = h_startIndex ([h0, h1, h2, h3] ! 3)"
    using between by (intro section_end_first) (simp_all add: lv js_le_def)
  then have "contentEndIndex (parseDocumentSections content ! 0)
      = h_startIndex (collect_headings content ! 3)"
    by (simp add: parseDocumentSections_def hs upt4 make_section_def Let_def)
  with levels show ?thesis by simp
qed

text \<open>
  C6. \<open>buildOutline\<close> is the stack pass of the spec: for each section in order it pops
  every stack entry whose level is \<open>>=\<close> the level of the section, then attaches the
  section as a child of the new stack top, or as a top-level result when the stack is
  empty (sections carry the numeric levels that \<open>parseInt\<close> gives on \<open>HEADING_n\<close>). For
  a document with headings at levels 1, 2, 2, 1 the content range of the first section
  ends at the start index of the fourth heading, the outline has the first and the
  fourth section at top level, and the two level-2 sections are the children of the
  first.
\<close>

theorem buildOutline_stack_pass:
  "((\<forall>s \<in> set secs. level s \<noteq> None) \<longrightarrow> buildOutline secs = spec_buildOutline secs)
   \<and> (map h_level (collect_headings content) = [Some 1, Some 2, Some 2, Some 1] \<longrightarrow>
        contentEndIndex (parseDocumentSections content ! 0)
          = h_startIndex (collect_headings content ! 3)
        \<and> outline (buildOutline (parseDocumentSections content)) = [0, 3]
        \<and> map children (store (buildOutline (parseDocumentSections content)))
            = [[1, 2], [], [], []]
        \<and> map node_section (store (buildOutline (parseDocumentSections content)))
            = parseDocumentSections content)"
proof (intro conjI impI)
  assume "\<forall>s \<in> set secs. level s \<noteq> None"
  then show "buildOutline secs = spec_buildOutline secs" by (rule buildOutline_spec)
next
  assume a: "map h_level (collect_headings content) = [Some 1, Some 2, Some 2, Some 1]"
  from sections_1221 [OF a]
  show "contentEndIndex (parseDocumentSections content ! 0)
          = h_startIndex (collect_headings content ! 3)" by simp
  from sections_1221 [OF a]
  have lv: "map level (parseDocumentSections content) = [Some 1, Some 2, Some 2, Some 1]" by simp
  from outline_1221 [OF lv]
  show "outline (buildOutline (parseDocumentSections content)) = [0, 3]"
    and "map children (store (buildOutline (parseDocumentSections content))) = [[1, 2], [], [], []]"
    and "map node_section (store (buildOutline (parseDocumentSections content)))
            = parseDocumentSections content"
    by simp_all
qed

lemma sections_doc_1221:
  "parseDocumentSections doc_1221 =
     [\<lparr>level = Some 1, title = ''A'', headingId = None, headingStartIndex = 1,
       headingEndIndex = 3, contentStartIndex = 3, contentEndIndex = 13,
       sectionStartIndex = 1, sectionEndIndex = 13\<rparr>,
      \<lparr>level = Some 2, title = ''B'', headingId = None, headingStartIndex = 6,
       headingEndIndex = 8, contentStartIndex = 8, contentEndIndex = 8,
       sectionStartIndex = 6, sectionEndIndex = 8\<rparr>,
      \<lparr>level = Some 2, title = ''C'', headingId = None, headingStartIndex = 8,
       headingEndIndex = 10, contentStartIndex = 10, contentEndIndex = 13,
       sectionStartIndex = 8, sectionEndIndex = 13\<rparr>,
      \<lparr>level = Some 1, title = ''D'', headingId = None, headingStartIndex = 13,
       headingEndIndex = 15, contentStartIndex = 15, contentEndIndex = 15,
       sectionStartIndex = 13, sectionEndIndex = 15\<rparr>]"
  by code_simp

theorem buildOutline_stack_pass_witness:
  "buildOutline (parseDocumentSections doc_1221) = spec_buildOutline (parseDocumentSections doc_1221)
   \<and> contentEndIndex (parseDocumentSections doc_1221 ! 0) = 13
   \<and> h_startIndex (collect_headings doc_1221 ! 3) = 13
   \<and> outline (buildOutline (parseDocumentSections doc_1221)) = [0, 3]
   \<and> map children (store (buildOutline (parseDocumentSections doc_1221))) = [[1, 2], [], [], []]"
proof -
  have num: "\<forall>s \<in> set (parseDocumentSections doc_1221). level s \<noteq> None"
    by (simp add: sections_doc_1221)
  have lv: "map h_level (collect_headings doc_1221) = [Some 1, Some 2, Some 2, Some 1]"
    by (simp add: headings_doc_1221)
  have h3: "h_startIndex (collect_headings doc_1221 ! 3) = 13"
    by (simp add: headings_doc_1221)
  note pass = buildOutline_stack_pass [of "parseDocumentSections doc_1221" doc_1221]
  from pass num
  have same: "buildOutline (parseDocumentSections doc_1221)
      = spec_buildOutline (parseDocumentSections doc_1221)"
    by blast
  from pass lv
  have example: "contentEndIndex (parseDocumentSections doc_1221 ! 0)
        = h_startIndex (collect_headings doc_1221 ! 3)
      \<and> outline (buildOutline (parseDocumentSections doc_1221)) = [0, 3]
      \<and> map children (store (buildOutline (parseDocumentSections doc_1221))) = [[1, 2], [], [], []]"
    by blast
  with h3 have "contentEndIndex (parseDocumentSections doc_1221 ! 0) = 13" by simp
  with same example h3 show ?thesis by blast
qed

subsection \<open>Sections of a contiguous document\<close>

lemma find_end_ge: "start \<le> find_end hs lvl start"
proof (induction hs lvl start rule: find_end.induct)
  case (1 hs lvl idx)
  show ?case
  proof (cases "idx < length hs \<and> js_gt (h_level (hs ! idx)) lvl")
    case True
    with "1.IH" have "idx + 1 \<le> find_end hs lvl (idx + 1)" by simp
    with True show ?thesis by (subst find_end.simps) simp
  next
    case False
    then show ?thesis by (subst find_end.simps) auto
  qed
qed

lemma find_end_le:
  assumes "start \<le> length hs"
  shows "find_end hs lvl start \<le> length hs"
  using assms
proof (induction hs lvl start rule: find_end.induct)
  case (1 hs lvl idx)
  show ?case
  proof (cases "idx < length hs \<and> js_gt (h_level (hs ! idx)) lvl")
    case True
    with "1.IH" have "find_end hs lvl (idx + 1) \<le> length hs" by simp
    with True show ?thesis by (subst find_end.simps) simp
  next
    case False
    with "1.prems" show ?thesis by (subst find_end.simps) auto
  qed
qed

lemma find_end_skipped:
  assumes "start \<le> k" and "k < find_end hs lvl start"
  shows "js_gt (h_level (hs ! k)) lvl"
  using assms
proof (induction hs lvl start rule: find_end.induct)
  case (1 hs lvl idx)
  show ?case
  proof (cases "idx < length hs \<and> js_gt (h_level (hs ! idx)) lvl")
    case True
    then have unfold: "find_end hs lvl idx = find_end hs lvl (idx + 1)"
      by (subst find_end.simps) simp
    show ?thesis
    proof (cases "k = idx")
      case True
      with \<open>idx < length hs \<and> js_gt (h_level (hs ! idx)) lvl\<close> show ?thesis by simp
    next
      case False
      with "1.prems" have "idx + 1 \<le> k" by simp
      moreover from "1.prems" unfold have "k < find_end hs lvl (idx + 1)" by simp
      ultimately show ?thesis using "1.IH" True by simp
    qed
  next
    case False
    then have "find_end hs lvl idx = idx" by (subst find_end.simps) auto
    with "1.prems" show ?thesis by simp
  qed
qed

lemma find_end_stop:
  assumes "find_end hs lvl start < length hs"
  shows "\<not> js_gt (h_level (hs ! find_end hs lvl start)) lvl"
  using assms
proof (induction hs lvl start rule: find_end.induct)
  case (1 hs lvl idx)
  show ?case
  proof (cases "idx < length hs \<and> js_gt (h_level (hs ! idx)) lvl")
    case True
    then have unfold: "find_end hs lvl idx = find_end hs lvl (idx + 1)"
      by (subst find_end.simps) simp
    with "1.IH" "1.prems" True show ?thesis by simp
  next
    case False
    then have stay: "find_end hs lvl idx = idx" by (subst find_end.simps) auto
    with "1.prems" False show ?thesis by simp
  qed
qed

lemma section_end_pos:
  assumes "i < length hs"
  shows "section_end content hs i
     = boundary_pos content hs (find_end hs (h_level (hs ! i)) (i + 1))"
proof (cases "i + 1 < length hs")
  case True
  then show ?thesis by (simp add: section_end_def boundary_pos_def Let_def)
next
  case False
  with assms have "find_end hs (h_level (hs ! i)) (i + 1) = i + 1"
    by (subst find_end.simps) simp
  with False show ?thesis by (simp add: section_end_def boundary_pos_def)
qed

text \<open>
  In a contiguous document the headings are non-empty, lie between the start of the
  first element and the end of the last, and each ends before the next starts; each is
  the range of an element of the document.
\<close>

lemma contiguous_tail: "contiguous (e # rest) \<Longrightarrow> contiguous rest"
  by (cases rest) simp_all

lemma contiguous_head:
  "contiguous (e # rest) \<Longrightarrow> startIndex e < endIndex e \<and> (rest \<noteq> [] \<longrightarrow> endIndex e = startIndex (hd rest))"
  by (cases rest) simp_all

lemma collect_headings_Cons:
  "collect_headings (e # rest) = collect_headings rest
   \<or> (\<exists>h. collect_headings (e # rest) = h # collect_headings rest
          \<and> h_startIndex h = startIndex e \<and> h_endIndex h = endIndex e)"
  by (simp split: option.splits)

lemma contiguous_last:
  assumes "contiguous (f # rest)"
  shows "startIndex f < endIndex f \<and> endIndex f \<le> endIndex (last (f # rest))"
  using assms
proof (induction rest arbitrary: f)
  case Nil
  then show ?case by simp
next
  case (Cons g rest)
  from Cons.prems have "contiguous (g # rest)" and "endIndex f = startIndex g"
    and "startIndex f < endIndex f" by simp_all
  with Cons.IH [of g] show ?case by simp
qed

lemma headings_in_document:
  assumes "contiguous content" and "h \<in> set (collect_headings content)"
  shows "content \<noteq> [] \<and> startIndex (hd content) \<le> h_startIndex h
    \<and> h_startIndex h < h_endIndex h \<and> h_endIndex h \<le> endIndex (last content)"
  using assms
proof (induction content)
  case Nil
  then show ?case by simp
next
  case (Cons e rest)
  from Cons.prems(1) have tail: "contiguous rest" by (rule contiguous_tail)
  from contiguous_head [OF Cons.prems(1)]
  have head: "startIndex e < endIndex e" "rest \<noteq> [] \<longrightarrow> endIndex e = startIndex (hd rest)"
    by blast+
  from contiguous_last [OF Cons.prems(1)]
  have last: "endIndex e \<le> endIndex (last (e # rest))" by simp
  have in_rest: ?case if "h \<in> set (collect_headings rest)"
  proof -
    from Cons.IH [OF tail that] have rest: "rest \<noteq> []" "startIndex (hd rest) \<le> h_startIndex h"
      "h_startIndex h < h_endIndex h" "h_endIndex h \<le> endIndex (last rest)" by simp_all
    with head show ?thesis by simp
  qed
  have is_head: ?case if "h_startIndex h = startIndex e" "h_endIndex h = endIndex e"
    using that head last by simp
  from collect_headings_Cons [of e rest] show ?case
  proof
    assume "collect_headings (e # rest) = collect_headings rest"
    with Cons.prems(2) have "h \<in> set (collect_headings rest)" by (simp only:)
    then show ?thesis by (rule in_rest)
  next
    assume "\<exists>h'. collect_headings (e # rest) = h' # collect_headings rest
          \<and> h_startIndex h' = startIndex e \<and> h_endIndex h' = endIndex e"
    then obtain h' where eq: "collect_headings (e # rest) = h' # collect_headings rest"
      and h': "h_startIndex h' = startIndex e" "h_endIndex h' = endIndex e" by blast
    from Cons.prems(2) have "h = h' \<or> h \<in> set (collect_headings rest)"
      by (simp only: eq set_simps insert_iff)
    with h' in_rest is_head show ?thesis by blast
  qed
qed

lemma headings_sorted:
  assumes "contiguous content"
  shows "sorted_wrt (\<lambda>a b. h_endIndex a \<le> h_startIndex b) (collect_headings content)"
  using assms
proof (induction content)
  case Nil
  show ?case by simp
next
  case (Cons e rest)
  from Cons.prems have tail: "contiguous rest" by (rule contiguous_tail)
  from contiguous_head [OF Cons.prems]
  have head: "startIndex e < endIndex e" "rest \<noteq> [] \<longrightarrow> endIndex e = startIndex (hd rest)"
    by blast+
  from Cons.IH [OF tail]
  have sorted_rest: "sorted_wrt (\<lambda>a b. h_endIndex a \<le> h_startIndex b) (collect_headings rest)" .
  have after: "endIndex e \<le> h_startIndex h" if "h \<in> set (collect_headings rest)" for h
    using headings_in_document [OF tail that] head by simp
  from collect_headings_Cons [of e rest] show ?case
  proof
    assume "collect_headings (e # rest) = collect_headings rest"
    with sorted_rest show ?thesis by (simp only:)
  next
    assume "\<exists>h. collect_headings (e # rest) = h # collect_headings rest
          \<and> h_startIndex h = startIndex e \<and> h_endIndex h = endIndex e"
    then obtain h where eq: "collect_headings (e # rest) = h # collect_headings rest"
      and "h_endIndex h = endIndex e" by blast
    with sorted_rest after
    have "sorted_wrt (\<lambda>a b. h_endIndex a \<le> h_startIndex b) (h # collect_headings rest)"
      by simp
    then show ?thesis by (simp only: eq)
  qed
qed

lemma boundary_pos_less:
  assumes "contiguous content" and "k < k'" and "k' \<le> length (collect_headings content)"
  shows "boundary_pos content (collect_headings content) k
     < boundary_pos content (collect_headings content) k'"
proof -
  let ?hs = "collect_headings content"
  from assms have k: "k < length ?hs" by simp
  then have mem: "?hs ! k \<in> set ?hs" by simp
  from headings_in_document [OF assms(1) mem]
  have nonempty: "h_startIndex (?hs ! k) < h_endIndex (?hs ! k)"
    and inside: "h_endIndex (?hs ! k) \<le> endIndex (last content)" by simp_all
  show ?thesis
  proof (cases "k' < length ?hs")
    case True
    from headings_sorted [OF assms(1)] assms(2) True
    have "h_endIndex (?hs ! k) \<le> h_startIndex (?hs ! k')"
      by (rule sorted_wrt_nth_less)
    with nonempty k True show ?thesis by (simp add: boundary_pos_def)
  next
    case False
    with nonempty inside k show ?thesis by (simp add: boundary_pos_def)
  qed
qed

lemma boundary_pos_mono:
  assumes "contiguous content" and "k \<le> k'" and "k' \<le> length (collect_headings content)"
  shows "boundary_pos content (collect_headings content) k
     \<le> boundary_pos content (collect_headings content) k'"
proof (cases "k = k'")
  case True
  then show ?thesis by simp
next
  case False
  with assms(2) have "k < k'" by simp
  from boundary_pos_less [OF assms(1) this assms(3)] show ?thesis by simp
qed
lemma section_fields:
  assumes "i < length (collect_headings content)"
  shows "sectionStartIndex (parseDocumentSections content ! i)
      = boundary_pos content (collect_headings content) i"
    and "sectionEndIndex (parseDocumentSections content ! i)
      = boundary_pos content (collect_headings content)
          (find_end (collect_headings content) (h_level (collect_headings content ! i)) (i + 1))"
    and "contentStartIndex (parseDocumentSections content ! i)
      = h_endIndex (collect_headings content ! i)"
    and "contentEndIndex (parseDocumentSections content ! i)
      = sectionEndIndex (parseDocumentSections content ! i)"
  using assms
  by (simp_all add: nth_parseDocumentSections make_section_def Let_def section_end_pos
        boundary_pos_def)

lemma section_starts_increase:
  assumes "contiguous content" and "i < j" and "j < length (parseDocumentSections content)"
  shows "sectionStartIndex (parseDocumentSections content ! i)
     < sectionStartIndex (parseDocumentSections content ! j)"
proof -
  from assms have j: "j < length (collect_headings content)"
    by (simp add: length_parseDocumentSections)
  with assms(2) have i: "i < length (collect_headings content)" by simp
  from boundary_pos_less [OF assms(1,2)] j
  have "boundary_pos content (collect_headings content) i
      < boundary_pos content (collect_headings content) j" by simp
  then show ?thesis by (simp add: section_fields(1) [OF i] section_fields(1) [OF j])
qed

text \<open>Two sections are disjoint, or the later one ends inside the earlier one.\<close>

lemma sections_nested:
  assumes "contiguous content" and "i < j" and "j < length (parseDocumentSections content)"
  shows "sectionEndIndex (parseDocumentSections content ! i)
       \<le> sectionStartIndex (parseDocumentSections content ! j)
     \<or> sectionEndIndex (parseDocumentSections content ! j)
       \<le> sectionEndIndex (parseDocumentSections content ! i)"
proof -
  let ?hs = "collect_headings content"
  let ?pos = "boundary_pos content ?hs"
  let ?bi = "find_end ?hs (h_level (?hs ! i)) (i + 1)"
  let ?bj = "find_end ?hs (h_level (?hs ! j)) (j + 1)"
  from assms have j: "j < length ?hs" by (simp add: length_parseDocumentSections)
  with assms(2) have i: "i < length ?hs" by simp
  from i have bi_le: "?bi \<le> length ?hs" by (intro find_end_le) simp
  from j have bj_le: "?bj \<le> length ?hs" by (intro find_end_le) simp
  show ?thesis
  proof (cases "?bi \<le> j")
    case True
    with j have "?pos ?bi \<le> ?pos j"
      by (intro boundary_pos_mono [OF assms(1)]) simp_all
    then show ?thesis
      by (simp add: section_fields(2) [OF i] section_fields(1) [OF j])
  next
    case False
    then have inside: "j < ?bi" by simp
    with assms(2) have deeper: "js_gt (h_level (?hs ! j)) (h_level (?hs ! i))"
      by (intro find_end_skipped) simp_all
    have "?bj \<le> ?bi"
    proof (rule ccontr)
      assume "\<not> ?bj \<le> ?bi"
      then have lt: "?bi < ?bj" by simp
      with inside have "js_gt (h_level (?hs ! ?bi)) (h_level (?hs ! j))"
        by (intro find_end_skipped) simp_all
      with deeper have "js_gt (h_level (?hs ! ?bi)) (h_level (?hs ! i))"
        by (blast intro: js_gt_trans)
      moreover from lt bj_le have "?bi < length ?hs" by simp
      then have "\<not> js_gt (h_level (?hs ! ?bi)) (h_level (?hs ! i))"
        by (rule find_end_stop)
      ultimately show False by simp
    qed
    with bi_le have "?pos ?bj \<le> ?pos ?bi"
      by (intro boundary_pos_mono [OF assms(1)]) simp_all
    then show ?thesis
      by (simp add: section_fields(2) [OF i] section_fields(2) [OF j])
  qed
qed

text \<open>Every index between the boundaries \<open>0\<close> and \<open>k\<close> lies between two neighbours.\<close>

lemma between_boundaries:
  assumes "boundary_pos content hs 0 \<le> x" and "x < boundary_pos content hs k"
  shows "\<exists>i < k. boundary_pos content hs i \<le> x \<and> x < boundary_pos content hs (i + 1)"
  using assms
proof (induction k)
  case 0
  then show ?case by simp
next
  case (Suc k)
  show ?case
  proof (cases "x < boundary_pos content hs k")
    case True
    from Suc.IH [OF Suc.prems(1) True] obtain i where "i < k"
      "boundary_pos content hs i \<le> x" "x < boundary_pos content hs (i + 1)" by blast
    then show ?thesis by (intro exI [of _ i]) simp
  next
    case False
    with Suc.prems(2) show ?thesis by (intro exI [of _ k]) simp
  qed
qed

lemma sections_cover:
  assumes "contiguous content" and "parseDocumentSections content \<noteq> []"
  shows "(sectionStartIndex (parseDocumentSections content ! 0) \<le> x
           \<and> x < endIndex (last content))
     \<longleftrightarrow> (\<exists>i < length (parseDocumentSections content).
           sectionStartIndex (parseDocumentSections content ! i) \<le> x
           \<and> x < sectionEndIndex (parseDocumentSections content ! i))"
proof -
  let ?hs = "collect_headings content"
  let ?n = "length ?hs"
  let ?pos = "boundary_pos content ?hs"
  from assms(2) have n: "0 < ?n"
    using length_parseDocumentSections [of content] by (cases "parseDocumentSections content") auto
  have doc_end: "?pos ?n = endIndex (last content)" by (simp add: boundary_pos_def)
  have first: "sectionStartIndex (parseDocumentSections content ! 0) = ?pos 0"
    by (rule section_fields(1) [OF n])
  show ?thesis
  proof
    assume "sectionStartIndex (parseDocumentSections content ! 0) \<le> x \<and> x < endIndex (last content)"
    with first doc_end have "?pos 0 \<le> x" "x < ?pos ?n" by simp_all
    from between_boundaries [OF this] obtain i where i: "i < ?n"
      and lo: "?pos i \<le> x" and hi: "x < ?pos (i + 1)" by blast
    let ?b = "find_end ?hs (h_level (?hs ! i)) (i + 1)"
    have "i + 1 \<le> ?b" by (rule find_end_ge)
    moreover from i have "?b \<le> ?n" by (intro find_end_le) simp
    ultimately have "?pos (i + 1) \<le> ?pos ?b" by (rule boundary_pos_mono [OF assms(1)])
    with hi have "x < ?pos ?b" by simp
    with lo i show "\<exists>i < length (parseDocumentSections content).
           sectionStartIndex (parseDocumentSections content ! i) \<le> x
           \<and> x < sectionEndIndex (parseDocumentSections content ! i)"
      by (intro exI [of _ i]) (simp add: length_parseDocumentSections section_fields)
  next
    assume "\<exists>i < length (parseDocumentSections content).
           sectionStartIndex (parseDocumentSections content ! i) \<le> x
           \<and> x < sectionEndIndex (parseDocumentSections content ! i)"
    then obtain i where i: "i < ?n"
      and lo: "sectionStartIndex (parseDocumentSections content ! i) \<le> x"
      and hi: "x < sectionEndIndex (parseDocumentSections content ! i)"
      by (auto simp: length_parseDocumentSections)
    let ?b = "find_end ?hs (h_level (?hs ! i)) (i + 1)"
    from i have b: "?b \<le> ?n" by (intro find_end_le) simp
    from i have "?pos 0 \<le> ?pos i" by (intro boundary_pos_mono [OF assms(1)]) simp_all
    moreover from b have "?pos ?b \<le> ?pos ?n" by (intro boundary_pos_mono [OF assms(1)]) simp_all
    ultimately show "sectionStartIndex (parseDocumentSections content ! 0) \<le> x
        \<and> x < endIndex (last content)"
      using lo hi first doc_end by (simp add: section_fields(1,2) [OF i])
  qed
qed

text \<open>
  Every heading is the range of an element, and an element that ends before the
  document does is followed by an element that starts where it ends.
\<close>

lemma heading_element:
  assumes "h \<in> set (collect_headings content)"
  shows "\<exists>e \<in> set content. startIndex e = h_startIndex h \<and> endIndex e = h_endIndex h"
  using assms
proof (induction content)
  case Nil
  then show ?case by simp
next
  case (Cons e rest)
  from collect_headings_Cons [of e rest] show ?case
  proof
    assume "collect_headings (e # rest) = collect_headings rest"
    with Cons.prems have "h \<in> set (collect_headings rest)" by (simp only:)
    from Cons.IH [OF this] show ?thesis by auto
  next
    assume "\<exists>h'. collect_headings (e # rest) = h' # collect_headings rest
          \<and> h_startIndex h' = startIndex e \<and> h_endIndex h' = endIndex e"
    then obtain h' where eq: "collect_headings (e # rest) = h' # collect_headings rest"
      and h': "h_startIndex h' = startIndex e" "h_endIndex h' = endIndex e" by blast
    from Cons.prems have "h = h' \<or> h \<in> set (collect_headings rest)"
      by (simp only: eq set_simps insert_iff)
    then show ?thesis
    proof
      assume "h = h'"
      with h' show ?thesis by auto
    next
      assume "h \<in> set (collect_headings rest)"
      from Cons.IH [OF this] show ?thesis by auto
    qed
  qed
qed

lemma next_element:
  assumes "contiguous content" and "e \<in> set content" and "endIndex e < endIndex (last content)"
  shows "\<exists>f \<in> set content. startIndex f = endIndex e"
  using assms
proof (induction content)
  case Nil
  then show ?case by simp
next
  case (Cons g rest)
  from Cons.prems(1) have tail: "contiguous rest" by (rule contiguous_tail)
  show ?case
  proof (cases rest)
    case Nil
    with Cons.prems show ?thesis by simp
  next
    case (Cons f more_content)
    from Cons.prems(2) have "e = g \<or> e \<in> set rest" by simp
    then show ?thesis
    proof
      assume "e = g"
      with contiguous_head [OF Cons.prems(1)] Cons have "startIndex f = endIndex e" by simp
      with Cons show ?thesis by auto
    next
      assume "e \<in> set rest"
      moreover from Cons.prems(3) Cons have "endIndex e < endIndex (last rest)" by simp
      ultimately have "\<exists>f \<in> set rest. startIndex f = endIndex e"
        using Cons.IH tail by blast
      then show ?thesis by auto
    qed
  qed
qed

lemma content_range_empty:
  assumes "contiguous content" and "i < length (parseDocumentSections content)"
  shows "contentEndIndex (parseDocumentSections content ! i)
       \<le> contentStartIndex (parseDocumentSections content ! i)
     \<longleftrightarrow> extractSectionContent content (parseDocumentSections content ! i) = []"
proof -
  let ?hs = "collect_headings content"
  let ?sec = "parseDocumentSections content ! i"
  let ?b = "find_end ?hs (h_level (?hs ! i)) (i + 1)"
  from assms(2) have i: "i < length ?hs" by (simp add: length_parseDocumentSections)
  have cs: "contentStartIndex ?sec = h_endIndex (?hs ! i)"
    and ce: "contentEndIndex ?sec = boundary_pos content ?hs ?b"
    by (simp_all add: section_fields [OF i])
  show ?thesis
  proof
    assume "contentEndIndex ?sec \<le> contentStartIndex ?sec"
    then show "extractSectionContent content ?sec = []"
      by (auto simp: extractSectionContent_def filter_empty_conv)
  next
    assume empty: "extractSectionContent content ?sec = []"
    show "contentEndIndex ?sec \<le> contentStartIndex ?sec"
    proof (rule ccontr)
      assume "\<not> contentEndIndex ?sec \<le> contentStartIndex ?sec"
      with cs ce have open_range: "h_endIndex (?hs ! i) < boundary_pos content ?hs ?b" by simp
      from i have "?b \<le> length ?hs" by (intro find_end_le) simp
      then have "boundary_pos content ?hs ?b \<le> boundary_pos content ?hs (length ?hs)"
        by (intro boundary_pos_mono [OF assms(1)]) simp_all
      with open_range have before_end: "h_endIndex (?hs ! i) < endIndex (last content)"
        by (simp add: boundary_pos_def)
      from i have "?hs ! i \<in> set ?hs" by simp
      from heading_element [OF this] obtain e where e: "e \<in> set content"
        and e_end: "endIndex e = h_endIndex (?hs ! i)" by blast
      from next_element [OF assms(1) e] before_end e_end
      obtain f where f: "f \<in> set content" and f_start: "startIndex f = h_endIndex (?hs ! i)"
        by auto
      from f f_start open_range cs ce have "f \<in> set (extractSectionContent content ?sec)"
        by (simp add: extractSectionContent_def)
      with empty show False by simp
    qed
  qed
qed

text \<open>
  C5, as stated, fails: in the document with headings at levels 1, 2, 2, 1 the section
  of heading A ranges over 1 to 13 and the section of heading B over 6 to 8, so the two
  sections overlap.
\<close>

theorem sections_overlap_counterexample:
  "sections_overlap (parseDocumentSections doc_1221 ! 0) (parseDocumentSections doc_1221 ! 1)"
  by (simp add: sections_doc_1221 sections_overlap_def)

text \<open>
  C5, amended. For every contiguous document the section starts strictly increase along
  the list; an index lies in some section exactly when it lies between the start of the
  first heading and the end index of the document (no gaps); two sections are either
  disjoint or the later one ends inside the earlier one (a section contains the
  sections of the deeper headings that follow it before its boundary); and the content
  range of a section is empty exactly when no element of the document starts in it.
\<close>

theorem sections_cover_nested:
  assumes "contiguous content"
  shows "(\<forall>i j. i < j \<and> j < length (parseDocumentSections content) \<longrightarrow>
            sectionStartIndex (parseDocumentSections content ! i)
              < sectionStartIndex (parseDocumentSections content ! j))
    \<and> (parseDocumentSections content \<noteq> [] \<longrightarrow>
         (\<forall>x. (sectionStartIndex (parseDocumentSections content ! 0) \<le> x
                 \<and> x < endIndex (last content))
            \<longleftrightarrow> (\<exists>i < length (parseDocumentSections content).
                  sectionStartIndex (parseDocumentSections content ! i) \<le> x
                  \<and> x < sectionEndIndex (parseDocumentSections content ! i))))
    \<and> (\<forall>i j. i < j \<and> j < length (parseDocumentSections content) \<longrightarrow>
            sectionEndIndex (parseDocumentSections content ! i)
              \<le> sectionStartIndex (parseDocumentSections content ! j)
            \<or> sectionEndIndex (parseDocumentSections content ! j)
              \<le> sectionEndIndex (parseDocumentSections content ! i))
    \<and> (\<forall>i < length (parseDocumentSections content).
            contentEndIndex (parseDocumentSections content ! i)
              \<le> contentStartIndex (parseDocumentSections content ! i)
            \<longleftrightarrow> extractSectionContent content (parseDocumentSections content ! i) = [])"
  using section_starts_increase [OF assms] sections_cover [OF assms]
    sections_nested [OF assms] content_range_empty [OF assms]
  by blast

theorem sections_cover_nested_witness:
  "contiguous doc_1221
   \<and> sectionStartIndex (parseDocumentSections doc_1221 ! 1)
       < sectionStartIndex (parseDocumentSections doc_1221 ! 2)
   \<and> (\<exists>i < length (parseDocumentSections doc_1221).
         sectionStartIndex (parseDocumentSections doc_1221 ! i) \<le> 7
         \<and> 7 < sectionEndIndex (parseDocumentSections doc_1221 ! i))
   \<and> (sectionEndIndex (parseDocumentSections doc_1221 ! 0)
         \<le> sectionStartIndex (parseDocumentSections doc_1221 ! 1)
       \<or> sectionEndIndex (parseDocumentSections doc_1221 ! 1)
         \<le> sectionEndIndex (parseDocumentSections doc_1221 ! 0))
   \<and> extractSectionContent doc_1221 (parseDocumentSections doc_1221 ! 1) = []"
proof -
  have c: "contiguous doc_1221"
    by (simp add: doc_1221_def para_def)
  have len: "length (parseDocumentSections doc_1221) = 4"
    by (simp add: sections_doc_1221)
  have nonempty: "parseDocumentSections doc_1221 \<noteq> []"
    by (simp add: sections_doc_1221)
  have doc_end: "endIndex (last doc_1221) = 15"
    by (simp add: doc_1221_def para_def)
  have inside: "sectionStartIndex (parseDocumentSections doc_1221 ! 0) \<le> 7
      \<and> 7 < endIndex (last doc_1221)"
    by (simp add: sections_doc_1221 doc_end)
  have empty: "contentEndIndex (parseDocumentSections doc_1221 ! 1)
      \<le> contentStartIndex (parseDocumentSections doc_1221 ! 1)"
    by (simp add: sections_doc_1221)
  note cover = sections_cover_nested [OF c]
  from cover len have "sectionStartIndex (parseDocumentSections doc_1221 ! 1)
       < sectionStartIndex (parseDocumentSections doc_1221 ! 2)"
    by simp
  moreover from cover nonempty inside
  have "\<exists>i < length (parseDocumentSections doc_1221).
         sectionStartIndex (parseDocumentSections doc_1221 ! i) \<le> 7
         \<and> 7 < sectionEndIndex (parseDocumentSections doc_1221 ! i)"
    by blast
  moreover from cover len
  have "sectionEndIndex (parseDocumentSections doc_1221 ! 0)
         \<le> sectionStartIndex (parseDocumentSections doc_1221 ! 1)
       \<or> sectionEndIndex (parseDocumentSections doc_1221 ! 1)
         \<le> sectionEndIndex (parseDocumentSections doc_1221 ! 0)"
    by simp
  moreover from cover len empty
  have "extractSectionContent doc_1221 (parseDocumentSections doc_1221 ! 1) = []"
    by simp
  ultimately show ?thesis using c by blast
qed

section \<open>Delete requests: properties\<close>

text \<open>
  C10. \<open>createDeleteSectionContentRequest\<close> returns null exactly when the content range
  is empty (\<open>contentStartIndex >= contentEndIndex\<close>); otherwise it deletes from
  \<open>contentStartIndex\<close> to \<open>contentEndIndex - 1\<close>. \<open>createDeleteSectionRequest\<close> always
  deletes from \<open>sectionStartIndex\<close> to \<open>sectionEndIndex - 1\<close>.
\<close>

theorem delete_requests:
  "(createDeleteSectionContentRequest sec = None
      \<longleftrightarrow> contentStartIndex sec \<ge> contentEndIndex sec)
   \<and> (contentStartIndex sec < contentEndIndex sec \<longrightarrow>
        createDeleteSectionContentRequest sec =
          Some (DeleteContentRange (contentStartIndex sec) (contentEndIndex sec - 1)))
   \<and> createDeleteSectionRequest sec =
        DeleteContentRange (sectionStartIndex sec) (sectionEndIndex sec - 1)"
  by (simp add: createDeleteSectionContentRequest_def createDeleteSectionRequest_def)

theorem delete_requests_witness:
  "createDeleteSectionContentRequest
     \<lparr>level = Some 1, title = ''A'', headingId = None, headingStartIndex = 1,
      headingEndIndex = 3, contentStartIndex = 3, contentEndIndex = 13,
      sectionStartIndex = 1, sectionEndIndex = 13\<rparr> = Some (DeleteContentRange 3 12)
   \<and> createDeleteSectionRequest
     \<lparr>level = Some 1, title = ''A'', headingId = None, headingStartIndex = 1,
      headingEndIndex = 3, contentStartIndex = 3, contentEndIndex = 13,
      sectionStartIndex = 1, sectionEndIndex = 13\<rparr> = DeleteContentRange 1 12"
  using delete_requests [of "\<lparr>level = Some 1, title = ''A'', headingId = None, headingStartIndex = 1,
      headingEndIndex = 3, contentStartIndex = 3, contentEndIndex = 13,
      sectionStartIndex = 1, sectionEndIndex = 13\<rparr>"]
  by simp

section \<open>The search engine: properties\<close>

lemma index_of_aux_empty: "index_of_aux [] rest k = Some k"
  by (cases rest) simp_all

lemma indexOf_empty: "indexOf s [] from = Some (min from (length s))"
  by (simp add: indexOf_def index_of_aux_empty)

lemma index_of_aux_bounds:
  assumes "index_of_aux q rest k = Some j" and "q \<noteq> []"
  shows "k \<le> j \<and> j + length q \<le> k + length rest
    \<and> take (length q) (drop (j - k) rest) = q"
  using assms
proof (induction rest arbitrary: k)
  case Nil
  then show ?case by simp
next
  case (Cons c cs)
  show ?case
  proof (cases "take (length q) (c # cs) = q")
    case True
    with Cons.prems have "j = k" by simp
    moreover have "length (take (length q) (c # cs)) = length q"
      using True by simp
    then have "length q \<le> length (c # cs)"
      by (simp add: min_def split: if_splits)
    ultimately show ?thesis using True by simp
  next
    case False
    with Cons.prems have "index_of_aux q cs (k + 1) = Some j" by simp
    from Cons.IH [OF this Cons.prems(2)]
    have "k + 1 \<le> j" and "j + length q \<le> k + 1 + length cs"
      and "take (length q) (drop (j - (k + 1)) cs) = q" by simp_all
    moreover from \<open>k + 1 \<le> j\<close> have "j - k = Suc (j - (k + 1))" by arith
    then have "drop (j - k) (c # cs) = drop (j - (k + 1)) cs" by simp
    ultimately show ?thesis by simp
  qed
qed

lemma indexOf_bounds:
  assumes "indexOf s q from = Some j" and "q \<noteq> []"
  shows "from \<le> j \<and> j + length q \<le> length s \<and> take (length q) (drop j s) = q"
proof (cases "from \<le> length s")
  case True
  from index_of_aux_bounds [OF assms [unfolded indexOf_def]] True
  have "from \<le> j" and "j + length q \<le> length s"
    and "take (length q) (drop (j - from) (drop from s)) = q"
    by (auto simp: min_def simp del: drop_drop)
  moreover from \<open>from \<le> j\<close> have "j - from + from = j" by simp
  ultimately show ?thesis by simp
next
  case False
  with assms show ?thesis by (simp add: indexOf_def)
qed

text \<open>With an empty query the loop over a paragraph never ends.\<close>

lemma search_loop_empty_query: "search_loop elementStart txt [] index matches = None"
proof -
  have "query \<noteq> []" if "search_loop elementStart txt query index matches = Some result"
    for query result
  proof (rule search_loop.raw_induct [where P = "\<lambda>es t q i ms r. q \<noteq> []", OF _ that])
    fix loop :: "int \<Rightarrow> string \<Rightarrow> string \<Rightarrow> nat \<Rightarrow> match list \<Rightarrow> match list option"
    fix es t q i ms r
    assume IH: "\<And>es t q i ms r. loop es t q i ms = Some r \<Longrightarrow> q \<noteq> []"
      and step: "(case indexOf (toLowerCase t) (toLowerCase q) i of
                    None \<Rightarrow> Some ms
                  | Some j \<Rightarrow> loop es t q (j + length q) (ms @ [make_match es t q j])) = Some r"
    show "q \<noteq> []"
    proof
      assume "q = []"
      with step have "loop es t [] (min i (length t))
          (ms @ [make_match es t [] (min i (length t))]) = Some r"
        by (simp add: toLowerCase_def indexOf_empty)
      from IH [OF this] show False by simp
    qed
  qed
  then show ?thesis by (cases "search_loop elementStart txt [] index matches") auto
qed

text \<open>
  With a non-empty query the loop ends, and every match it adds is an occurrence of the
  lower-cased query in the lower-cased text at or after the scan position.
\<close>

lemma search_loop_returns:
  assumes "query \<noteq> []"
  shows "\<exists>found. search_loop elementStart txt query index matches = Some (matches @ found)
    \<and> (\<forall>m \<in> set found. \<exists>j. m = make_match elementStart txt query j \<and> index \<le> j
          \<and> j + length query \<le> length txt
          \<and> take (length query) (drop j (toLowerCase txt)) = toLowerCase query)"
proof (induction "length txt + 1 - index" arbitrary: index matches rule: less_induct)
  case less
  show ?case
  proof (cases "indexOf (toLowerCase txt) (toLowerCase query) index")
    case None
    then have "search_loop elementStart txt query index matches = Some (matches @ [])"
      by (subst search_loop.simps) simp
    then show ?thesis by fastforce
  next
    case (Some j)
    from assms have q: "toLowerCase query \<noteq> []" by (simp add: toLowerCase_def)
    from indexOf_bounds [OF Some q]
    have j: "index \<le> j" "j + length query \<le> length txt"
      "take (length query) (drop j (toLowerCase txt)) = toLowerCase query"
      by (simp_all add: toLowerCase_def)
    from assms j have smaller: "length txt + 1 - (j + length query) < length txt + 1 - index"
      by (cases query) simp_all
    from less [OF smaller, of "matches @ [make_match elementStart txt query j]"]
    obtain found where
      rest: "search_loop elementStart txt query (j + length query)
               (matches @ [make_match elementStart txt query j])
             = Some ((matches @ [make_match elementStart txt query j]) @ found)"
      and all: "\<forall>m \<in> set found. \<exists>k. m = make_match elementStart txt query k
          \<and> j + length query \<le> k \<and> k + length query \<le> length txt
          \<and> take (length query) (drop k (toLowerCase txt)) = toLowerCase query"
      by blast
    have "search_loop elementStart txt query index matches
        = Some (matches @ (make_match elementStart txt query j # found))"
      using Some rest by (subst search_loop.simps) simp
    moreover have "\<forall>m \<in> set (make_match elementStart txt query j # found).
        \<exists>k. m = make_match elementStart txt query k \<and> index \<le> k
          \<and> k + length query \<le> length txt
          \<and> take (length query) (drop k (toLowerCase txt)) = toLowerCase query"
    proof
      fix m
      assume "m \<in> set (make_match elementStart txt query j # found)"
      then consider "m = make_match elementStart txt query j" | "m \<in> set found" by auto
      then show "\<exists>k. m = make_match elementStart txt query k \<and> index \<le> k
          \<and> k + length query \<le> length txt
          \<and> take (length query) (drop k (toLowerCase txt)) = toLowerCase query"
      proof cases
        case 1
        with j show ?thesis by blast
      next
        case 2
        with all obtain k where "m = make_match elementStart txt query k"
          "j + length query \<le> k" "k + length query \<le> length txt"
          "take (length query) (drop k (toLowerCase txt)) = toLowerCase query"
          by blast
        with j show ?thesis by (intro exI [of _ k]) simp
      qed
    qed
    ultimately show ?thesis by blast
  qed
qed

lemma search_elements_returns:
  assumes "query \<noteq> []"
  shows "\<exists>result. search_elements content query lo hi matches = Some result"
proof (induction content arbitrary: matches)
  case Nil
  show ?case by simp
next
  case (Cons element content)
  show ?case
  proof (cases "el_paragraph element")
    case None
    with Cons.IH show ?thesis by simp
  next
    case (Some p)
    from search_loop_returns [OF assms, of "startIndex element" "extractTextFromParagraph p" 0 matches]
    obtain found where "search_loop (startIndex element) (extractTextFromParagraph p) query 0 matches
        = Some (matches @ found)" by blast
    with Some Cons.IH show ?thesis by simp
  qed
qed

lemma searchInDocument_returns:
  assumes "query \<noteq> []"
  shows "\<exists>result. searchInDocument content query sec = Some result"
  unfolding searchInDocument_def using assms by (rule search_elements_returns)

text \<open>
  Searching the paragraph \<open>abc ABC abc\<close>, which starts at index 1, for \<open>abc\<close> gives the
  three occurrences, whatever their case.
\<close>

lemma search_abc:
  "searchInDocument [para 1 13 ''NORMAL_TEXT'' ''abc ABC abc\<newline>''] ''abc'' None =
     Some [\<lparr>m_startIndex = 1, m_endIndex = 4, m_text = ''abc'', m_context = ''abc ABC abc'',
             paragraphIndex = 1\<rparr>,
           \<lparr>m_startIndex = 5, m_endIndex = 8, m_text = ''ABC'', m_context = ''abc ABC abc'',
             paragraphIndex = 1\<rparr>,
           \<lparr>m_startIndex = 9, m_endIndex = 12, m_text = ''abc'', m_context = ''abc ABC abc'',
             paragraphIndex = 1\<rparr>]"
  by code_simp

text \<open>
  C7. The search does not return for every query: with the empty query and a document
  that has a paragraph in range, \<open>indexOf\<close> reports a hit at the scan position, the
  position advances by the length 0 of the query, and the loop runs forever.
\<close>

theorem search_empty_query_diverges:
  "searchInDocument [para 1 5 ''NORMAL_TEXT'' ''abc\<newline>''] '''' None = None"
  by (simp add: searchInDocument_def para_def search_loop_empty_query)

end
